theory Spec2Isabelle
  imports Main "HOL-Library.List_Lexorder" "HOL-Library.Char_ord" "HOL-Library.AList"
    "HOL-Library.Multiset"
begin

section \<open>The generational layout engine of FamilyTreeView.tsx\<close>

text \<open>
  The engine is the function \<open>buildTreeLayout\<close> of
  \<^verbatim>\<open>frontend/src/components/FamilyTreeView.tsx\<close> with its helpers \<open>year\<close>,
  \<open>relDeltaFromRoot\<close> and \<open>pickOldest\<close>. Identifiers, names and labels are JavaScript
  strings; they are modelled as \<open>string\<close>, whose characters are the code units
  \<open>0..255\<close>. Generations and years are JavaScript numbers that only ever hold
  integers (or NaN, for a year); they are modelled as \<open>int\<close> and \<open>jsnum\<close>.
\<close>

subsection \<open>Characters and strings\<close>

definition code :: "char \<Rightarrow> nat" where
  "code c = of_char c"

text \<open>The class \<^verbatim>\<open>\s\<close>: tab, line feed, vertical tab, form feed, carriage return,
  space and no-break space.\<close>

definition isSpace :: "char \<Rightarrow> bool" where
  "isSpace c = (code c \<in> {9, 10, 11, 12, 13, 32, 160})"

text \<open>The class \<^verbatim>\<open>\w\<close>: \<^verbatim>\<open>[A-Za-z0-9_]\<close>.\<close>

definition isWordChar :: "char \<Rightarrow> bool" where
  "isWordChar c = (let n = code c in
     (48 \<le> n \<and> n \<le> 57) \<or> (65 \<le> n \<and> n \<le> 90) \<or> n = 95 \<or> (97 \<le> n \<and> n \<le> 122))"

definition lowerChar :: "char \<Rightarrow> char" where
  "lowerChar c = (let n = code c in
     if (65 \<le> n \<and> n \<le> 90) \<or> (192 \<le> n \<and> n \<le> 222 \<and> n \<noteq> 215)
     then char_of (n + 32) else c)"

definition toLowerCase :: "string \<Rightarrow> string" where
  "toLowerCase s = map lowerChar s"

subsection \<open>The regular expressions of the lexicon\<close>

text \<open>
  The fragment of regular expressions that \<open>relDeltaFromRoot\<close> uses: literals, a
  character class, \<^verbatim>\<open>?\<close>, sequence, alternation and the assertion \<^verbatim>\<open>\b\<close>.
  \<open>ends r s i\<close> lists the positions where a match of \<open>r\<close> that starts at position
  \<open>i\<close> of \<open>s\<close> can end; \<open>test\<close> is \<^verbatim>\<open>RegExp.prototype.test\<close>, a match
  starting anywhere.
\<close>

datatype regex =
    Lit string
  | Cls "char \<Rightarrow> bool"
  | Opt regex
  | Seq regex regex
  | Alt regex regex
  | WordB

definition wordBoundary :: "string \<Rightarrow> nat \<Rightarrow> bool" where
  "wordBoundary s i =
     ((0 < i \<and> isWordChar (s ! (i - 1))) \<noteq> (i < length s \<and> isWordChar (s ! i)))"

fun ends :: "regex \<Rightarrow> string \<Rightarrow> nat \<Rightarrow> nat list" where
  "ends (Lit w) s i = (if take (length w) (drop i s) = w then [i + length w] else [])"
| "ends (Cls P) s i = (if i < length s \<and> P (s ! i) then [Suc i] else [])"
| "ends (Opt r) s i = ends r s i @ [i]"
| "ends (Seq a b) s i = concat (map (ends b s) (ends a s i))"
| "ends (Alt a b) s i = ends a s i @ ends b s i"
| "ends WordB s i = (if wordBoundary s i then [i] else [])"

definition test :: "regex \<Rightarrow> string \<Rightarrow> bool" where
  "test r s = list_ex (\<lambda>i. ends r s i \<noteq> []) [0..<Suc (length s)]"

fun seqs :: "regex list \<Rightarrow> regex" where
  "seqs [] = Lit []"
| "seqs [r] = r"
| "seqs (r # rs) = Seq r (seqs rs)"

fun alts :: "string list \<Rightarrow> regex" where
  "alts [] = Lit []"
| "alts [w] = Lit w"
| "alts (w # ws) = Alt (Lit w) (alts ws)"

text \<open>\<^verbatim>\<open>[-\s]?\<close>\<close>

definition sep :: regex where
  "sep = Opt (Cls (\<lambda>c. c = CHR ''-'' \<or> isSpace c))"

text \<open>\<^verbatim>\<open>\b(w1|w2|...)\b\<close>\<close>

definition wholeWord :: "string list \<Rightarrow> regex" where
  "wholeWord ws = seqs [WordB, alts ws, WordB]"

definition reGreatGreatGrandAncestor :: regex where
  "reGreatGreatGrandAncestor =
     seqs [Lit ''great'', sep, Lit ''great'', sep, Lit ''grand'',
           alts [''parent'', ''father'', ''mother'']]"

definition reGreatGrandAncestor :: regex where
  "reGreatGrandAncestor =
     seqs [Lit ''great'', sep, Lit ''grand'', alts [''parent'', ''father'', ''mother'']]"

definition reGrandAncestor :: regex where
  "reGrandAncestor = seqs [Lit ''grand'', alts [''parent'', ''father'', ''mother'']]"

definition reParent :: regex where
  "reParent = wholeWord [''father'', ''mother'', ''parent'', ''dad'', ''mom'']"

definition reChild :: regex where
  "reChild = wholeWord [''son'', ''daughter'', ''child'', ''kid'']"

definition reGrandDescendant :: regex where
  "reGrandDescendant = seqs [Lit ''grand'', alts [''son'', ''daughter'', ''child'']]"

definition reGreatGrandDescendant :: regex where
  "reGreatGrandDescendant =
     seqs [Lit ''great'', sep, Lit ''grand'', alts [''son'', ''daughter'', ''child'']]"

definition reUncleAunt :: regex where
  "reUncleAunt = wholeWord [''uncle'', ''aunt'']"

definition reNephewNiece :: regex where
  "reNephewNiece = wholeWord [''nephew'', ''niece'']"

definition reSibling :: regex where
  "reSibling = wholeWord [''sister'', ''brother'', ''sibling'']"

subsection \<open>The relationship lexicon\<close>

text \<open>Relative generation against the root (positive is older, negative is younger);
  \<open>None\<close> is \<^verbatim>\<open>undefined\<close>. The tests run in the order of the source.\<close>

definition relDeltaFromRoot :: "string \<Rightarrow> int option" where
  "relDeltaFromRoot rel =
     (let r = toLowerCase rel in
      if test reGreatGreatGrandAncestor r then Some 3
      else if test reGreatGrandAncestor r then Some 2
      else if test reGrandAncestor r then Some 1
      else if test reParent r then Some 1
      else if test reChild r then Some (- 1)
      else if test reGrandDescendant r then Some (- 2)
      else if test reGreatGrandDescendant r then Some (- 3)
      else if test reUncleAunt r then Some 1
      else if test reNephewNiece r then Some (- 1)
      else if test reSibling r then Some 0
      else None)"

subsection \<open>Data model\<close>

text \<open>The fields of the interface \<open>FamilyMember\<close> that the engine reads. An optional
  field is an \<open>option\<close>: \<open>None\<close> is \<^verbatim>\<open>undefined\<close> (or \<^verbatim>\<open>null\<close>).\<close>

record FamilyMember =
  member_id :: string
  name :: string
  dateOfBirth :: "string option"
  relationship :: string
  fatherId :: "string option"
  motherId :: "string option"
  spouseIds :: "string list option"
  childrenIds :: "string list option"

type_synonym Edge = "string \<times> string"

record Layout =
  levels :: "string list list"
  pEdges :: "Edge list"
  sEdges :: "Edge list"

text \<open>The only exception the engine can raise: reading a property of \<^verbatim>\<open>undefined\<close>.\<close>

datatype error = TypeError

text \<open>A JavaScript number that holds an integer or NaN.\<close>

datatype jsnum = NaN | Num int

fun numSub :: "jsnum \<Rightarrow> jsnum \<Rightarrow> jsnum" where
  "numSub (Num a) (Num b) = Num (a - b)"
| "numSub _ _ = NaN"

fun numLe :: "jsnum \<Rightarrow> jsnum \<Rightarrow> bool" where
  "numLe (Num a) (Num b) = (a \<le> b)"
| "numLe _ _ = False"

fun strictNeq :: "jsnum \<Rightarrow> jsnum \<Rightarrow> bool" where
  "strictNeq (Num a) (Num b) = (a \<noteq> b)"
| "strictNeq _ _ = True"

fun positive :: "jsnum \<Rightarrow> bool" where
  "positive (Num a) = (0 < a)"
| "positive NaN = False"

text \<open>
  What the engine takes from its host: the year that \<^verbatim>\<open>new Date(d).getFullYear()\<close>
  reads from a date string (NaN for a string that is no date; the year depends on the
  time zone) and \<^verbatim>\<open>String.prototype.localeCompare\<close> (it depends on the locale).
\<close>

record Host =
  getFullYear :: "string \<Rightarrow> jsnum"
  localeCompare :: "string \<Rightarrow> string \<Rightarrow> int"

text \<open>An insertion-ordered \<^verbatim>\<open>Map\<close>: \<^verbatim>\<open>set\<close> replaces the value of a key
  in place or appends a new entry.\<close>

type_synonym ('k, 'v) jsmap = "('k \<times> 'v) list"

definition mapSet :: "('k, 'v) jsmap \<Rightarrow> 'k \<Rightarrow> 'v \<Rightarrow> ('k, 'v) jsmap" where
  "mapSet m k v = AList.update k v m"

definition mapGet :: "('k, 'v) jsmap \<Rightarrow> 'k \<Rightarrow> 'v option" where
  "mapGet m k = map_of m k"

definition mapHas :: "('k, 'v) jsmap \<Rightarrow> 'k \<Rightarrow> bool" where
  "mapHas m k = (map_of m k \<noteq> None)"

definition newMap :: "('k \<times> 'v) list \<Rightarrow> ('k, 'v) jsmap" where
  "newMap kvs = foldl (\<lambda>m (k, v). mapSet m k v) [] kvs"

subsection \<open>Sorting\<close>

text \<open>
  \<^verbatim>\<open>Array.prototype.sort\<close> with a comparator, as a stable insertion sort: an
  element moves behind another only when the comparator is positive (NaN counts as
  zero). A comparator that throws aborts the sort. For a consistent comparator the
  result of a stable sort is determined, and this is it. Where the comparator is not
  consistent (it returns NaN for a birth date that is no date) ECMAScript leaves the
  order to the implementation, and an engine may order such an array differently; the
  properties below that range over all inputs speak of the members of a row or of the
  number of rows, not of that order.
\<close>

fun insortBy :: "('a \<Rightarrow> 'a \<Rightarrow> error + jsnum) \<Rightarrow> 'a \<Rightarrow> 'a list \<Rightarrow> error + 'a list" where
  "insortBy cmp x [] = Inr [x]"
| "insortBy cmp x (y # ys) =
     (case cmp x y of
        Inl e \<Rightarrow> Inl e
      | Inr v \<Rightarrow>
          if positive v
          then (case insortBy cmp x ys of Inl e \<Rightarrow> Inl e | Inr zs \<Rightarrow> Inr (y # zs))
          else Inr (x # y # ys))"

fun sortBy :: "('a \<Rightarrow> 'a \<Rightarrow> error + jsnum) \<Rightarrow> 'a list \<Rightarrow> error + 'a list" where
  "sortBy cmp [] = Inr []"
| "sortBy cmp (x # xs) =
     (case sortBy cmp xs of Inl e \<Rightarrow> Inl e | Inr ys \<Rightarrow> insortBy cmp x ys)"

subsection \<open>Birth years and the oldest member\<close>

definition year :: "Host \<Rightarrow> string option \<Rightarrow> jsnum option" where
  "year h d = (case d of
       None \<Rightarrow> None
     | Some s \<Rightarrow> if s = [] then None else Some (getFullYear h s))"

text \<open>\<^verbatim>\<open>year(d) ?? 9999\<close>\<close>

definition yearOr9999 :: "Host \<Rightarrow> string option \<Rightarrow> jsnum" where
  "yearOr9999 h d = (case year h d of None \<Rightarrow> Num 9999 | Some y \<Rightarrow> y)"

definition pickOldest :: "Host \<Rightarrow> FamilyMember list \<Rightarrow> error + string" where
  "pickOldest h members =
     (case sortBy (\<lambda>a b. Inr (numSub (yearOr9999 h (dateOfBirth a))
                                      (yearOr9999 h (dateOfBirth b)))) members of
        Inl e \<Rightarrow> Inl e
      | Inr [] \<Rightarrow> Inl TypeError
      | Inr (m # _) \<Rightarrow> Inr (member_id m))"

subsection \<open>Graph builder\<close>

definition idsOf :: "string list option \<Rightarrow> string list" where
  "idsOf l = (case l of None \<Rightarrow> [] | Some ids \<Rightarrow> ids)"

text \<open>\<^verbatim>\<open>if (m.fatherId) pEdges.push([m.fatherId, m._id])\<close>: an absent identifier
  and the empty string are falsy.\<close>

definition truthyId :: "string option \<Rightarrow> string list" where
  "truthyId p = (case p of None \<Rightarrow> [] | Some pid \<Rightarrow> if pid = [] then [] else [pid])"

definition parentRef :: "string option \<Rightarrow> string \<Rightarrow> Edge list" where
  "parentRef p c = map (\<lambda>pid. (pid, c)) (truthyId p)"

definition memberPEdges :: "FamilyMember \<Rightarrow> Edge list" where
  "memberPEdges m =
     map (\<lambda>cid. (member_id m, cid)) (idsOf (childrenIds m))
     @ parentRef (fatherId m) (member_id m)
     @ parentRef (motherId m) (member_id m)"

definition memberSEdges :: "FamilyMember \<Rightarrow> Edge list" where
  "memberSEdges m =
     map (\<lambda>s. (member_id m, s)) (filter (\<lambda>s. member_id m < s) (idsOf (spouseIds m)))"

definition explicitPEdges :: "FamilyMember list \<Rightarrow> Edge list" where
  "explicitPEdges members = concat (map memberPEdges members)"

definition explicitSEdges :: "FamilyMember list \<Rightarrow> Edge list" where
  "explicitSEdges members = concat (map memberSEdges members)"

text \<open>An edge that joins \<open>a\<close> and \<open>b\<close>, in either direction.\<close>

definition joins :: "string \<Rightarrow> string \<Rightarrow> Edge \<Rightarrow> bool" where
  "joins a b e = (e = (a, b) \<or> e = (b, a))"

text \<open>The identifiers a member refers to, and the collections in which every
  reference is the identifier of a member.\<close>

definition references :: "FamilyMember \<Rightarrow> string list" where
  "references m =
     idsOf (childrenIds m) @ truthyId (fatherId m) @ truthyId (motherId m)
     @ idsOf (spouseIds m)"

definition resolved :: "FamilyMember list \<Rightarrow> bool" where
  "resolved members =
     list_all (\<lambda>m. list_all (\<lambda>r. r \<in> set (map member_id members)) (references m)) members"

subsection \<open>Root selector\<close>

definition candidates :: "FamilyMember list \<Rightarrow> Edge list \<Rightarrow> string list" where
  "candidates members pE =
     filter (\<lambda>i. i \<notin> set (map snd pE)) (map member_id members)"

definition rootsOf :: "FamilyMember list \<Rightarrow> Edge list \<Rightarrow> string \<Rightarrow> string list" where
  "rootsOf members pE fallbackRoot =
     (if candidates members pE \<noteq> [] then candidates members pE else [fallbackRoot])"

subsection \<open>Generation assigner: the worklist traversal\<close>

text \<open>
  The state of the \<^verbatim>\<open>while (q.length)\<close> loop: the queue \<open>q\<close>, the set \<open>seen\<close>
  (in insertion order) and the map \<open>gen\<close>. \<open>expand\<close> lists what one visit pushes:
  the children at \<open>g - 1\<close>, the parents at \<open>g + 1\<close>, the spouses at \<open>g\<close>, each only
  if not seen. \<open>bfsStep\<close> is one iteration of the loop body.
\<close>

record BfsState =
  queue :: "(string \<times> int) list"
  seen :: "string list"
  gen :: "(string, int) jsmap"

definition expand :: "Edge list \<Rightarrow> Edge list \<Rightarrow> string list \<Rightarrow> string \<Rightarrow> int \<Rightarrow> (string \<times> int) list" where
  "expand pE sE sn i g =
     map (\<lambda>(p, c). (c, g - 1)) (filter (\<lambda>(p, c). p = i \<and> c \<notin> set sn) pE)
     @ map (\<lambda>(p, c). (p, g + 1)) (filter (\<lambda>(p, c). c = i \<and> p \<notin> set sn) pE)
     @ concat (map (\<lambda>(a, b). (if a = i \<and> b \<notin> set sn then [(b, g)] else [])
                              @ (if b = i \<and> a \<notin> set sn then [(a, g)] else [])) sE)"

definition bfsStep :: "Edge list \<Rightarrow> Edge list \<Rightarrow> BfsState \<Rightarrow> BfsState" where
  "bfsStep pE sE st =
     (case queue st of
        [] \<Rightarrow> st
      | (i, g) # rest \<Rightarrow>
          if i \<in> set (seen st) then st\<lparr>queue := rest\<rparr>
          else \<lparr>queue = rest @ expand pE sE (seen st @ [i]) i g,
                seen = seen st @ [i],
                gen = mapSet (gen st) i g\<rparr>)"

definition nodes :: "Edge list \<Rightarrow> string set" where
  "nodes es = fst ` set es \<union> snd ` set es"

definition unseen :: "Edge list \<Rightarrow> Edge list \<Rightarrow> BfsState \<Rightarrow> string set" where
  "unseen pE sE st = (nodes pE \<union> nodes sE \<union> fst ` set (queue st)) - set (seen st)"

function bfs :: "Edge list \<Rightarrow> Edge list \<Rightarrow> BfsState \<Rightarrow> BfsState" where
  "bfs pE sE st = (if queue st = [] then st else bfs pE sE (bfsStep pE sE st))"
  by pat_completeness auto
termination
proof (relation "(\<lambda>(pE, sE, st). card (unseen pE sE st)) <*mlex*>
                 measure (\<lambda>(pE, sE, st). length (queue st))")
  show "wf ((\<lambda>(pE, sE, st). card (unseen pE sE st)) <*mlex*>
            measure (\<lambda>(pE, sE, st). length (queue st)))"
    by (simp add: wf_mlex)
next
  fix pE sE :: "Edge list" and st :: BfsState
  assume ne: "queue st \<noteq> []"
  then obtain i g rest where q: "queue st = (i, g) # rest"
    by (cases "queue st") auto
  have fin: "finite (unseen pE sE st)"
    by (simp add: unseen_def nodes_def)
  show "((pE, sE, bfsStep pE sE st), (pE, sE, st))
        \<in> (\<lambda>(pE, sE, st). card (unseen pE sE st)) <*mlex*>
          measure (\<lambda>(pE, sE, st). length (queue st))"
  proof (cases "i \<in> set (seen st)")
    case True
    then have step: "bfsStep pE sE st = st\<lparr>queue := rest\<rparr>"
      by (simp add: bfsStep_def q)
    have "unseen pE sE (st\<lparr>queue := rest\<rparr>) \<subseteq> unseen pE sE st"
      by (auto simp: unseen_def q)
    then have "card (unseen pE sE (st\<lparr>queue := rest\<rparr>)) \<le> card (unseen pE sE st)"
      using fin by (rule card_mono[rotated])
    then show ?thesis
      by (auto simp: step mlex_iff q)
  next
    case False
    then have step: "bfsStep pE sE st =
        \<lparr>queue = rest @ expand pE sE (seen st @ [i]) i g, seen = seen st @ [i],
         gen = mapSet (gen st) i g\<rparr>"
      by (simp add: bfsStep_def q)
    have ex: "fst ` set (expand pE sE sn i g) \<subseteq> nodes pE \<union> nodes sE" for sn
      by (force simp: expand_def nodes_def split: if_splits)
    have "unseen pE sE (bfsStep pE sE st) \<subset> unseen pE sE st"
    proof
      show "unseen pE sE (bfsStep pE sE st) \<subseteq> unseen pE sE st"
        using ex[of "seen st @ [i]"] by (auto simp: unseen_def step q)
      have "i \<in> unseen pE sE st" using False by (simp add: unseen_def q)
      moreover have "i \<notin> unseen pE sE (bfsStep pE sE st)"
        by (simp add: unseen_def step)
      ultimately show "unseen pE sE (bfsStep pE sE st) \<noteq> unseen pE sE st"
        by auto
    qed
    then have "card (unseen pE sE (bfsStep pE sE st)) < card (unseen pE sE st)"
      using fin by (rule psubset_card_mono[rotated])
    then show ?thesis
      by (simp add: mlex_iff)
  qed
qed


declare bfs.simps [simp del]

text \<open>What the loop keeps true: \<open>seen\<close> holds the keys of \<open>gen\<close>, each once.\<close>

definition bfsInv :: "BfsState \<Rightarrow> bool" where
  "bfsInv st = (set (seen st) = fst ` set (gen st) \<and> distinct (seen st))"

text \<open>Every generation in the queue and in \<open>gen\<close> is 0.\<close>

definition allZero :: "BfsState \<Rightarrow> bool" where
  "allZero st = (snd ` set (queue st) \<subseteq> {0} \<and> snd ` set (gen st) \<subseteq> {0})"

text \<open>The identifiers of \<open>R\<close> are assigned or still queued.\<close>

definition covers :: "string set \<Rightarrow> BfsState \<Rightarrow> bool" where
  "covers R st = (bfsInv st \<and> R \<subseteq> fst ` set (gen st) \<union> fst ` set (queue st))"

text \<open>
  Fill any unvisited member, using its relationship label or its birth year against
  the fallback root's.
\<close>

definition fillMember ::
  "Host \<Rightarrow> (string, FamilyMember) jsmap \<Rightarrow> string \<Rightarrow> int \<Rightarrow> (string, int) jsmap
   \<Rightarrow> FamilyMember \<Rightarrow> (string, int) jsmap" where
  "fillMember h byId fallbackRoot rootG gn m =
     (if mapHas gn (member_id m) then gn
      else case relDeltaFromRoot (relationship m) of
        Some d \<Rightarrow> mapSet gn (member_id m) (rootG + d)
      | None \<Rightarrow>
          let ym = year h (dateOfBirth m);
              yr = year h (case mapGet byId fallbackRoot of
                             None \<Rightarrow> None | Some r \<Rightarrow> dateOfBirth r)
          in mapSet gn (member_id m)
               (case (ym, yr) of
                  (Some a, Some b) \<Rightarrow> if numLe a b then rootG + 1 else rootG - 1
                | _ \<Rightarrow> rootG))"

subsection \<open>Rows\<close>

text \<open>\<^verbatim>\<open>levels[k].push(i)\<close>; outside the array \<^verbatim>\<open>levels[k]\<close> is undefined and
  the call throws.\<close>

definition pushAt :: "string list list \<Rightarrow> int \<Rightarrow> string \<Rightarrow> error + string list list" where
  "pushAt lv k i =
     (if 0 \<le> k \<and> k < int (length lv) then Inr (lv[nat k := lv ! nat k @ [i]])
      else Inl TypeError)"

fun pushAll :: "int \<Rightarrow> string list list \<Rightarrow> (string \<times> int) list \<Rightarrow> error + string list list" where
  "pushAll minG lv [] = Inr lv"
| "pushAll minG lv ((i, g) # rest) =
     (case pushAt lv (g - minG) i of Inl e \<Rightarrow> Inl e | Inr lv' \<Rightarrow> pushAll minG lv' rest)"

text \<open>Normalise so that the top row is 0. (With no value at all, \<^verbatim>\<open>Math.min()\<close>
  is Infinity and the array of rows has length 0.)\<close>

definition buildLevels :: "(string, int) jsmap \<Rightarrow> error + string list list" where
  "buildLevels gn =
     (case map snd gn of
        [] \<Rightarrow> Inr []
      | v # vs \<Rightarrow>
          let minG = fold min vs v; maxG = fold max vs v
          in pushAll minG (replicate (nat (maxG - minG + 1)) []) gn)"

subsection \<open>Row orderer\<close>

definition trim :: "string \<Rightarrow> string" where
  "trim s = rev (dropWhile isSpace (rev (dropWhile isSpace s)))"

text \<open>\<^verbatim>\<open>s.split(/\s+/)\<close>: \<open>splitWs cur s\<close> reads a token, \<open>cur\<close> holding its
  characters so far in reverse; \<open>skipWs\<close> reads on through a run of separators.\<close>

fun splitWs :: "string \<Rightarrow> string \<Rightarrow> string list"
  and skipWs :: "string \<Rightarrow> string list" where
  "splitWs cur [] = [rev cur]"
| "splitWs cur (c # cs) = (if isSpace c then rev cur # skipWs cs else splitWs (c # cur) cs)"
| "skipWs [] = [[]]"
| "skipWs (c # cs) = (if isSpace c then skipWs cs else splitWs [c] cs)"

definition lastToken :: "string \<Rightarrow> string" where
  "lastToken s =
     toLowerCase (case rev (splitWs [] (trim s)) of [] \<Rightarrow> [] | t # _ \<Rightarrow> t)"

text \<open>\<^verbatim>\<open>byId.get(i)?.name || ''\<close>\<close>

definition nameOf :: "(string, FamilyMember) jsmap \<Rightarrow> string \<Rightarrow> string" where
  "nameOf byId i = (case mapGet byId i of None \<Rightarrow> [] | Some m \<Rightarrow> name m)"

definition familyToken :: "(string, FamilyMember) jsmap \<Rightarrow> Edge list \<Rightarrow> string \<Rightarrow> string" where
  "familyToken byId pE i =
     (let candParents = map fst (filter (\<lambda>(p, c). c = i) pE);
          fromParent = (case candParents of
                          [] \<Rightarrow> []
                        | p # _ \<Rightarrow> if p = [] then [] else lastToken (nameOf byId p))
      in if fromParent \<noteq> [] then fromParent else lastToken (nameOf byId i))"

definition addToFamily ::
  "(string, string list) jsmap \<Rightarrow> string \<Rightarrow> string \<Rightarrow> (string, string list) jsmap" where
  "addToFamily families token i =
     (case mapGet families token of
        None \<Rightarrow> mapSet families token [i]
      | Some ids \<Rightarrow> mapSet families token (ids @ [i]))"

text \<open>The comparator of a bucket: birth year, then name. \<^verbatim>\<open>byId.get(a)!\<close> is
  undefined for an identifier that is no member, and reading its birth date throws.\<close>

definition compareMembers ::
  "Host \<Rightarrow> (string, FamilyMember) jsmap \<Rightarrow> string \<Rightarrow> string \<Rightarrow> error + jsnum" where
  "compareMembers h byId a b =
     (case (mapGet byId a, mapGet byId b) of
        (Some A, Some B) \<Rightarrow>
          let ya = yearOr9999 h (dateOfBirth A); yb = yearOr9999 h (dateOfBirth B)
          in if strictNeq ya yb then Inr (numSub ya yb)
             else Inr (Num (localeCompare h (name A) (name B)))
      | _ \<Rightarrow> Inl TypeError)"

fun mapE :: "('a \<Rightarrow> error + 'b) \<Rightarrow> 'a list \<Rightarrow> error + 'b list" where
  "mapE f [] = Inr []"
| "mapE f (x # xs) =
     (case f x of
        Inl e \<Rightarrow> Inl e
      | Inr y \<Rightarrow> (case mapE f xs of Inl e \<Rightarrow> Inl e | Inr ys \<Rightarrow> Inr (y # ys)))"

definition orderRow ::
  "Host \<Rightarrow> (string, FamilyMember) jsmap \<Rightarrow> Edge list \<Rightarrow> string list \<Rightarrow> error + string list" where
  "orderRow h byId pE row =
     (let families = foldl (\<lambda>fam i. addToFamily fam (familyToken byId pE i) i) [] row
      in case mapE (\<lambda>(k, ids). case sortBy (compareMembers h byId) ids of
                                  Inl e \<Rightarrow> Inl e | Inr ids' \<Rightarrow> Inr (k, ids')) families of
           Inl e \<Rightarrow> Inl e
         | Inr sortedBuckets \<Rightarrow>
             (case sortBy (\<lambda>A B. Inr (Num (localeCompare h (fst A) (fst B)))) sortedBuckets of
                Inl e \<Rightarrow> Inl e
              | Inr bs \<Rightarrow> Inr (concat (map snd bs))))"

subsection \<open>Edge synthesizer\<close>

text \<open>\<^verbatim>\<open>parents[Math.min(i, parents.length - 1)]\<close> is undefined when the row of
  parents is empty; an undefined or empty \<open>pid\<close> is falsy and gives no edge.\<close>

definition inferRow :: "string list \<Rightarrow> string list \<Rightarrow> Edge list" where
  "inferRow parents kids =
     concat (map (\<lambda>(i, cid).
        if parents = [] then []
        else let pid = parents ! min i (length parents - 1)
             in if pid \<noteq> [] then [(pid, cid)] else []) (enumerate 0 kids))"

definition inferEdges :: "string list list \<Rightarrow> Edge list" where
  "inferEdges lv = concat (map (\<lambda>r. inferRow (lv ! r) (lv ! Suc r)) [0..<length lv - 1])"

subsection \<open>The engine\<close>

definition byIdOf :: "FamilyMember list \<Rightarrow> (string, FamilyMember) jsmap" where
  "byIdOf members = newMap (map (\<lambda>m. (member_id m, m)) members)"

text \<open>Root selection, traversal and fill, \<open>fallbackRoot\<close> being what \<open>pickOldest\<close>
  returned: the map \<open>gen\<close> as it stands before the rows are built.\<close>

definition assignGenerations :: "Host \<Rightarrow> FamilyMember list \<Rightarrow> string \<Rightarrow> (string, int) jsmap" where
  "assignGenerations h members fallbackRoot =
     (let pE = explicitPEdges members;
          sE = explicitSEdges members;
          roots = rootsOf members pE fallbackRoot;
          gen0 = gen (bfs pE sE \<lparr>queue = map (\<lambda>i. (i, 0)) roots, seen = [], gen = []\<rparr>);
          rootG = (case mapGet gen0 fallbackRoot of None \<Rightarrow> 0 | Some g \<Rightarrow> g)
      in foldl (fillMember h (byIdOf members) fallbackRoot rootG) gen0 members)"

text \<open>The engine from the root selector on.\<close>

definition layoutWithRoot :: "Host \<Rightarrow> FamilyMember list \<Rightarrow> string \<Rightarrow> error + Layout" where
  "layoutWithRoot h members fallbackRoot =
     (case buildLevels (assignGenerations h members fallbackRoot) of
        Inl e \<Rightarrow> Inl e
      | Inr lv \<Rightarrow>
          (case mapE (orderRow h (byIdOf members) (explicitPEdges members)) lv of
             Inl e \<Rightarrow> Inl e
           | Inr lv' \<Rightarrow>
               Inr \<lparr>levels = lv',
                    pEdges = (if explicitPEdges members = [] then inferEdges lv'
                              else explicitPEdges members),
                    sEdges = explicitSEdges members\<rparr>))"

definition buildTreeLayout :: "Host \<Rightarrow> FamilyMember list \<Rightarrow> error + Layout" where
  "buildTreeLayout h members =
     (if members = [] then Inr \<lparr>levels = [], pEdges = [], sEdges = []\<rparr>
      else case pickOldest h members of
             Inl e \<Rightarrow> Inl e
           | Inr fallbackRoot \<Rightarrow> layoutWithRoot h members fallbackRoot)"

subsection \<open>Concrete hosts and inputs\<close>

text \<open>
  A host for the concrete evaluations: a date string that begins with four digits has
  that year (the reading of an ISO date in a time zone at or east of UTC), any other
  string is no date; strings compare by code units.
\<close>

definition isDigit :: "char \<Rightarrow> bool" where
  "isDigit c = (48 \<le> code c \<and> code c \<le> 57)"

definition isoYear :: "string \<Rightarrow> jsnum" where
  "isoYear s =
     (if 4 \<le> length s \<and> list_all isDigit (take 4 s)
      then Num (foldl (\<lambda>n c. 10 * n + int (code c - 48)) 0 (take 4 s))
      else NaN)"

definition codeUnitCompare :: "string \<Rightarrow> string \<Rightarrow> int" where
  "codeUnitCompare a b = (if a < b then - 1 else if b < a then 1 else 0)"

definition isoHost :: Host where
  "isoHost = \<lparr>getFullYear = isoYear, localeCompare = codeUnitCompare\<rparr>"

definition person :: "string \<Rightarrow> string \<Rightarrow> string \<Rightarrow> FamilyMember" where
  "person i n rel =
     \<lparr>member_id = i, name = n, dateOfBirth = None, relationship = rel,
      fatherId = None, motherId = None, spouseIds = None, childrenIds = None\<rparr>"

text \<open>The scenario of the specification: Ann Lee, her son Bob Lee, his son Cid Lee.\<close>

definition annLee :: FamilyMember where
  "annLee = (person ''1'' ''Ann Lee'' ''Grandmother'')\<lparr>dateOfBirth := Some ''1940''\<rparr>"

definition bobLee :: FamilyMember where
  "bobLee = (person ''2'' ''Bob Lee'' ''Father'')
              \<lparr>dateOfBirth := Some ''1965'', motherId := Some ''1''\<rparr>"

definition cidLee :: FamilyMember where
  "cidLee = (person ''3'' ''Cid Lee'' ''Son'')
              \<lparr>dateOfBirth := Some ''1990'', fatherId := Some ''2''\<rparr>"

text \<open>Three members known by their labels only.\<close>

definition labelledOnly :: "FamilyMember list" where
  "labelledOnly =
     [person ''1'' ''Al Ray'' ''Grandfather'', person ''2'' ''Ben Ray'' ''Father'',
      person ''3'' ''Cy Ray'' ''Son'']"

text \<open>A member with no link, and two members each recorded as the other's father.\<close>

definition withCycle :: "FamilyMember list" where
  "withCycle =
     [person ''1'' ''Al Ray'' ''Self'',
      (person ''2'' ''Ben Ray'' ''Great-Great-Grandfather'')\<lparr>fatherId := Some ''3''\<rparr>,
      (person ''3'' ''Cy Ray'' ''Son'')\<lparr>fatherId := Some ''2''\<rparr>]"

text \<open>Two members who list each other as spouse.\<close>

definition alRay :: FamilyMember where
  "alRay = (person ''1'' ''Al Ray'' ''Husband'')\<lparr>spouseIds := Some [''2'']\<rparr>"

definition beaRay :: FamilyMember where
  "beaRay = (person ''2'' ''Bea Ray'' ''Wife'')\<lparr>spouseIds := Some [''1'']\<rparr>"

text \<open>A member who lists the same spouse twice; two members with the same identifier
  who list the same spouse.\<close>

definition spouseTwice :: "FamilyMember list" where
  "spouseTwice =
     [(person ''1'' ''Al Ray'' ''Husband'')\<lparr>spouseIds := Some [''2'', ''2'']\<rparr>,
      person ''2'' ''Bea Ray'' ''Wife'']"

definition sharedIdSpouses :: "FamilyMember list" where
  "sharedIdSpouses =
     [(person ''1'' ''Al Ray'' ''Husband'')\<lparr>spouseIds := Some [''2'']\<rparr>,
      (person ''1'' ''Al Roy'' ''Husband'')\<lparr>spouseIds := Some [''2'']\<rparr>,
      person ''2'' ''Bea Ray'' ''Wife'']"

text \<open>A member whose father is not in the collection.\<close>

definition orphan :: FamilyMember where
  "orphan = (person ''1'' ''Al Ray'' ''Self'')\<lparr>fatherId := Some ''x''\<rparr>"

text \<open>Two parent edges that form a cycle.\<close>

definition cycleEdges :: "Edge list" where
  "cycleEdges = [(''a'', ''b''), (''b'', ''a'')]"

text \<open>The same identifier twice.\<close>

definition sameIdTwice :: "FamilyMember list" where
  "sameIdTwice = [person ''1'' ''Al Ray'' ''Self'', person ''1'' ''Al Roy'' ''Self'']"

text \<open>A member whose mother is not in the collection, and his son.\<close>

definition motherAbsent :: "FamilyMember list" where
  "motherAbsent =
     [(person ''1'' ''Al Ray'' ''Self'')\<lparr>motherId := Some ''m''\<rparr>,
      (person ''2'' ''Bo Ray'' ''Son'')\<lparr>fatherId := Some ''1''\<rparr>]"

text \<open>A member whose father and mother are both not in the collection.\<close>

definition parentsAbsent :: "FamilyMember list" where
  "parentsAbsent =
     [(person ''1'' ''Al Ray'' ''Self'')\<lparr>fatherId := Some ''x'', motherId := Some ''y''\<rparr>]"

section \<open>Properties\<close>

subsection \<open>Relationship lexicon\<close>

lemma ends_within: "j \<in> set (ends r s i) \<Longrightarrow> i \<le> length s \<Longrightarrow> j \<le> length s"
proof (induction r arbitrary: i j)
  case (Lit w)
  then have "take (length w) (drop i s) = w" and j: "j = i + length w"
    by (auto split: if_splits)
  then have "length w = min (length s - i) (length w)"
    by (metis length_take length_drop)
  with Lit.prems j show ?case by linarith
next
  case (Seq a b)
  then show ?case by auto
qed (auto split: if_splits)

lemma test_iff: "test r s \<longleftrightarrow> (\<exists>i\<le>length s. ends r s i \<noteq> [])"
proof -
  have "set [0..<Suc (length s)] = {i. i \<le> length s}"
    by (auto simp del: upt_Suc)
  then show ?thesis
    unfolding test_def list_ex_iff by blast
qed

lemma test_Seq_right: "test (Seq a b) s \<Longrightarrow> test b s"
proof -
  assume "test (Seq a b) s"
  then obtain i where i: "i \<le> length s" and ne: "ends (Seq a b) s i \<noteq> []"
    by (auto simp: test_iff)
  from ne obtain j where j: "j \<in> set (ends a s i)" and nb: "ends b s j \<noteq> []"
    by auto
  from j i have "j \<le> length s" by (rule ends_within)
  with nb show "test b s" by (auto simp: test_iff)
qed

lemma great_grand_descendant_is_grand_descendant:
  "test reGreatGrandDescendant s \<Longrightarrow> test reGrandDescendant s"
  unfolding reGreatGrandDescendant_def reGrandDescendant_def seqs.simps
  by (blast dest: test_Seq_right)

text \<open>
  Claim C4. The lexicon is asked to return the table's offset for every label that
  matches a pattern, a label containing "great-grandson", "great-granddaughter" or
  "great-grandchild" giving \<open>-3\<close>. In the code the test for "grand(son|daughter|child)"
  comes before the test for "great-grand(son|daughter|child)", and whatever matches the
  second matches the first: no label at all gives \<open>-3\<close>, and the three labels give \<open>-2\<close>.
\<close>

theorem great_grand_descendant_shadowed:
  "relDeltaFromRoot rel \<noteq> Some (- 3)
   \<and> relDeltaFromRoot ''great-grandson'' = Some (- 2)
   \<and> relDeltaFromRoot ''great-granddaughter'' = Some (- 2)
   \<and> relDeltaFromRoot ''great-grandchild'' = Some (- 2)"
proof -
  have "relDeltaFromRoot rel \<noteq> Some (- 3)"
    using great_grand_descendant_is_grand_descendant [of "toLowerCase rel"]
    by (simp add: relDeltaFromRoot_def Let_def)
  moreover have "relDeltaFromRoot ''great-grandson'' = Some (- 2)"
    by code_simp
  moreover have "relDeltaFromRoot ''great-granddaughter'' = Some (- 2)"
    by code_simp
  moreover have "relDeltaFromRoot ''great-grandchild'' = Some (- 2)"
    by code_simp
  ultimately show ?thesis by blast
qed

text \<open>
  Claim C5. The label "Great-Grandfather" is asked to resolve to the tier \<open>+3\<close>, three
  generations above the root, as "Great-Grandson" is meant to be three below. The code
  does test the more specific pattern first (the plainer "grand(parent|father|mother)"
  pattern matches the label too and is not what decides), but its ancestor tiers are one
  short: "Grandfather" is put on the tier \<open>+1\<close> of "Father", and "Great-Grandfather" on
  \<open>+2\<close>, while "Son" and "Grandson" are one and two below.
\<close>

theorem ancestor_tiers_off_by_one:
  "relDeltaFromRoot ''Great-Grandfather'' = Some 2
   \<and> relDeltaFromRoot ''Grandfather'' = Some 1
   \<and> relDeltaFromRoot ''Father'' = Some 1
   \<and> relDeltaFromRoot ''Son'' = Some (- 1)
   \<and> relDeltaFromRoot ''Grandson'' = Some (- 2)
   \<and> relDeltaFromRoot ''Great-Great-Grandfather'' = Some 3
   \<and> test reGrandAncestor (toLowerCase ''Great-Grandfather'')"
  by code_simp

subsection \<open>Graph builder\<close>

lemma truthyId_iff: "p \<in> set (truthyId x) \<longleftrightarrow> x = Some p \<and> p \<noteq> []"
  by (auto simp: truthyId_def split: option.splits if_splits)

lemma explicitPEdges_iff:
  "(p, c) \<in> set (explicitPEdges members) \<longleftrightarrow>
     (\<exists>m\<in>set members.
        (p = member_id m \<and> c \<in> set (idsOf (childrenIds m)))
        \<or> (c = member_id m \<and> p \<noteq> [] \<and> (fatherId m = Some p \<or> motherId m = Some p)))"
proof -
  have "(p, c) \<in> set (memberPEdges m) \<longleftrightarrow>
          (p = member_id m \<and> c \<in> set (idsOf (childrenIds m)))
          \<or> (c = member_id m \<and> p \<noteq> [] \<and> (fatherId m = Some p \<or> motherId m = Some p))" for m
    by (auto simp: memberPEdges_def parentRef_def truthyId_iff image_iff)
  then show ?thesis by (simp add: explicitPEdges_def)
qed

lemma explicitSEdges_iff:
  "(a, b) \<in> set (explicitSEdges members) \<longleftrightarrow>
     (\<exists>m\<in>set members. a = member_id m \<and> a < b \<and> b \<in> set (idsOf (spouseIds m)))"
  by (auto simp: explicitSEdges_def memberSEdges_def)

lemma resolved_iff:
  "resolved members \<longleftrightarrow>
     (\<forall>m\<in>set members. set (references m) \<subseteq> member_id ` set members)"
  by (auto simp: resolved_def list_all_iff)

lemma resolved_nodes:
  assumes "resolved members"
  shows "nodes (explicitPEdges members) \<subseteq> member_id ` set members"
    and "nodes (explicitSEdges members) \<subseteq> member_id ` set members"
proof -
  have r: "\<And>m x. m \<in> set members \<Longrightarrow> x \<in> set (references m) \<Longrightarrow> x \<in> member_id ` set members"
    using assms by (auto simp: resolved_iff)
  show "nodes (explicitPEdges members) \<subseteq> member_id ` set members"
  proof
    fix x assume "x \<in> nodes (explicitPEdges members)"
    then obtain p c where e: "(p, c) \<in> set (explicitPEdges members)" and x: "x = p \<or> x = c"
      by (auto simp: nodes_def)
    from e obtain m where m: "m \<in> set members"
      and k: "(p = member_id m \<and> c \<in> set (idsOf (childrenIds m)))
        \<or> (c = member_id m \<and> p \<noteq> [] \<and> (fatherId m = Some p \<or> motherId m = Some p))"
      unfolding explicitPEdges_iff by blast
    from k have "p \<in> insert (member_id m) (set (references m))"
      "c \<in> insert (member_id m) (set (references m))"
      by (auto simp: references_def truthyId_iff)
    with x m r show "x \<in> member_id ` set members" by blast
  qed
  show "nodes (explicitSEdges members) \<subseteq> member_id ` set members"
  proof
    fix x assume "x \<in> nodes (explicitSEdges members)"
    then obtain a b where e: "(a, b) \<in> set (explicitSEdges members)" and x: "x = a \<or> x = b"
      by (auto simp: nodes_def)
    from e obtain m where m: "m \<in> set members"
      and k: "a = member_id m" "b \<in> set (idsOf (spouseIds m))"
      unfolding explicitSEdges_iff by blast
    from k have "b \<in> set (references m)" by (simp add: references_def)
    with x m r k show "x \<in> member_id ` set members" by blast
  qed
qed

text \<open>
  Claim C2, as stated: every parent edge of the graph builder has both endpoints in
  the collection, a reference to an absent identifier yielding no edge. The father
  \<open>x\<close> of the only member is absent, and the edge from \<open>x\<close> is built and returned.
\<close>

theorem dangling_parent_edge_kept:
  "(''x'', ''1'') \<in> set (explicitPEdges [orphan])
   \<and> ''x'' \<notin> set (map member_id [orphan])
   \<and> buildTreeLayout isoHost [orphan] =
       Inr \<lparr>levels = [[''1''], [''x'']], pEdges = [(''x'', ''1'')], sEdges = []\<rparr>"
  unfolding orphan_def by code_simp

text \<open>
  Claim C2, amended: the graph builder drops no reference. Its parent edges are exactly
  the pairs (member, child) for each children identifier and (parent, member) for each
  non-empty father or mother identifier; its spouse edges are exactly the pairs
  (member, spouse) for each spouse identifier greater than the member's own; the
  referenced identifier may be absent from the collection. In a collection whose
  references all resolve, both endpoints of every edge are members.
\<close>

theorem graph_builder_edges:
  "((p, c) \<in> set (explicitPEdges members) \<longleftrightarrow>
      (\<exists>m\<in>set members.
         (p = member_id m \<and> c \<in> set (idsOf (childrenIds m)))
         \<or> (c = member_id m \<and> p \<noteq> [] \<and> (fatherId m = Some p \<or> motherId m = Some p))))
   \<and> ((a, b) \<in> set (explicitSEdges members) \<longleftrightarrow>
      (\<exists>m\<in>set members. a = member_id m \<and> a < b \<and> b \<in> set (idsOf (spouseIds m))))
   \<and> (resolved members \<longrightarrow>
        nodes (explicitPEdges members) \<union> nodes (explicitSEdges members)
        \<subseteq> set (map member_id members))"
  using explicitPEdges_iff [of p c members] explicitSEdges_iff [of a b members]
    resolved_nodes [of members]
  by simp

theorem graph_builder_edges_witness:
  "resolved [annLee, bobLee, cidLee]
   \<and> nodes (explicitPEdges [annLee, bobLee, cidLee])
       \<union> nodes (explicitSEdges [annLee, bobLee, cidLee])
     \<subseteq> set (map member_id [annLee, bobLee, cidLee])
   \<and> explicitPEdges [annLee, bobLee, cidLee] = [(''1'', ''2''), (''2'', ''3'')]"
proof -
  have r: "resolved [annLee, bobLee, cidLee]"
    unfolding annLee_def bobLee_def cidLee_def by code_simp
  have e: "explicitPEdges [annLee, bobLee, cidLee] = [(''1'', ''2''), (''2'', ''3'')]"
    unfolding annLee_def bobLee_def cidLee_def by code_simp
  from graph_builder_edges [of "''1''" "''2''" "[annLee, bobLee, cidLee]" "''1''" "''2''"] r
  have "nodes (explicitPEdges [annLee, bobLee, cidLee])
          \<union> nodes (explicitSEdges [annLee, bobLee, cidLee])
        \<subseteq> set (map member_id [annLee, bobLee, cidLee])"
    by blast
  with r e show ?thesis by blast
qed

subsection \<open>Spouse edges\<close>

lemma memberSEdges_count:
  assumes "a < b"
  shows "length (filter (joins a b) (memberSEdges m)) =
         (if member_id m = a then count_list (idsOf (spouseIds m)) b else 0)"
proof -
  have "length (filter (joins a b)
          (map (\<lambda>s. (i, s)) (filter (\<lambda>s. i < s) xs))) =
        (if i = a then count_list xs b else 0)" for i xs
    using assms by (induction xs) (auto simp: joins_def)
  then show ?thesis by (simp add: memberSEdges_def)
qed

lemma count_list_distinct: "distinct xs \<Longrightarrow> count_list xs b = (if b \<in> set xs then 1 else 0)"
  by (induction xs) auto

lemma explicitSEdges_count:
  assumes "a < b" "distinct (map member_id members)"
    "\<forall>m\<in>set members. distinct (idsOf (spouseIds m))"
  shows "length (filter (joins a b) (explicitSEdges members)) =
         (if \<exists>m\<in>set members. member_id m = a \<and> b \<in> set (idsOf (spouseIds m)) then 1 else 0)"
  using assms(2,3)
proof (induction members)
  case Nil
  then show ?case by (simp add: explicitSEdges_def)
next
  case (Cons m ms)
  have split: "explicitSEdges (m # ms) = memberSEdges m @ explicitSEdges ms"
    by (simp add: explicitSEdges_def)
  from Cons.prems have IH:
    "length (filter (joins a b) (explicitSEdges ms)) =
     (if \<exists>m\<in>set ms. member_id m = a \<and> b \<in> set (idsOf (spouseIds m)) then 1 else 0)"
    by (intro Cons.IH) auto
  from Cons.prems have "member_id m \<notin> member_id ` set ms" by simp
  then have fresh: "\<forall>x\<in>set ms. member_id x \<noteq> member_id m" by (metis imageI)
  from Cons.prems have d: "distinct (idsOf (spouseIds m))" by simp
  show ?case
    using fresh
    by (auto simp: split IH memberSEdges_count[OF assms(1)] count_list_distinct[OF d])
qed

lemma layoutWithRoot_sEdges:
  "layoutWithRoot h members fb = Inr r \<Longrightarrow> sEdges r = explicitSEdges members"
  by (auto simp: layoutWithRoot_def split: sum.splits)

lemma layout_sEdges: "buildTreeLayout h members = Inr r \<Longrightarrow> sEdges r = explicitSEdges members"
  by (auto simp: buildTreeLayout_def explicitSEdges_def
      split: if_splits sum.splits dest: layoutWithRoot_sEdges)

text \<open>
  Claim C8, as stated: the output holds exactly one spouse edge for each pair of which
  the smaller member lists the other. A member who lists the same spouse twice gets the
  edge twice, and so do two members with the same identifier who list the same spouse.
\<close>

theorem spouse_edge_twice:
  "distinct (map member_id spouseTwice)
   \<and> buildTreeLayout isoHost spouseTwice =
     Inr \<lparr>levels = [[''1'', ''2'']], pEdges = [], sEdges = [(''1'', ''2''), (''1'', ''2'')]\<rparr>
   \<and> buildTreeLayout isoHost sharedIdSpouses =
     Inr \<lparr>levels = [[''2'', ''1'']], pEdges = [], sEdges = [(''1'', ''2''), (''1'', ''2'')]\<rparr>"
  unfolding spouseTwice_def sharedIdSpouses_def by code_simp

text \<open>
  Claim C8, amended. When the member identifiers are unique and no member lists a
  spouse twice, the spouse edges of the output hold exactly one edge joining \<open>a\<close> and
  \<open>b\<close>, \<open>a < b\<close>, when the member \<open>a\<close> lists \<open>b\<close>, and none otherwise; two different
  members who list each other are joined by exactly one edge, not two.
\<close>

theorem spouse_edge_once:
  assumes "buildTreeLayout h members = Inr r"
    and "distinct (map member_id members)"
    and "\<forall>m\<in>set members. distinct (idsOf (spouseIds m))"
  shows "(a < b \<longrightarrow>
           length (filter (joins a b) (sEdges r)) =
           (if \<exists>m\<in>set members. member_id m = a \<and> b \<in> set (idsOf (spouseIds m))
            then 1 else 0))
       \<and> (\<forall>ma\<in>set members. \<forall>mb\<in>set members.
            member_id ma \<noteq> member_id mb
            \<and> member_id mb \<in> set (idsOf (spouseIds ma))
            \<and> member_id ma \<in> set (idsOf (spouseIds mb)) \<longrightarrow>
            length (filter (joins (member_id ma) (member_id mb)) (sEdges r)) = 1)"
proof -
  have s: "sEdges r = explicitSEdges members"
    using assms(1) by (rule layout_sEdges)
  have one: "x < y \<Longrightarrow>
      length (filter (joins x y) (sEdges r)) =
      (if \<exists>m\<in>set members. member_id m = x \<and> y \<in> set (idsOf (spouseIds m)) then 1 else 0)"
    for x y
    unfolding s using assms(2,3) by (intro explicitSEdges_count)
  have sym: "joins x y = joins y x" for x y
    by (auto simp: joins_def)
  have two: "length (filter (joins (member_id ma) (member_id mb)) (sEdges r)) = 1"
    if "ma \<in> set members" "mb \<in> set members" "member_id ma \<noteq> member_id mb"
      "member_id mb \<in> set (idsOf (spouseIds ma))" "member_id ma \<in> set (idsOf (spouseIds mb))"
    for ma mb
  proof (cases "member_id ma < member_id mb")
    case True
    then show ?thesis using one[OF True] that by auto
  next
    case False
    with that(3) have lt: "member_id mb < member_id ma" by auto
    show ?thesis using one[OF lt] that by (subst sym) auto
  qed
  show ?thesis using one two by blast
qed

theorem spouse_edge_once_witness:
  "buildTreeLayout isoHost [alRay, beaRay] =
     Inr \<lparr>levels = [[''1'', ''2'']], pEdges = [], sEdges = [(''1'', ''2'')]\<rparr>
   \<and> distinct (map member_id [alRay, beaRay])
   \<and> distinct (idsOf (spouseIds alRay)) \<and> distinct (idsOf (spouseIds beaRay))
   \<and> ''1'' < ''2''
   \<and> length (filter (joins ''1'' ''2'')
        (sEdges \<lparr>levels = [[''1'', ''2'']], pEdges = [], sEdges = [(''1'', ''2'')]\<rparr>)) = 1"
proof -
  let ?r = "\<lparr>levels = [[''1'', ''2'']], pEdges = [], sEdges = [(''1'', ''2'')]\<rparr>"
  have r: "buildTreeLayout isoHost [alRay, beaRay] = Inr ?r"
    unfolding alRay_def beaRay_def by code_simp
  have d: "distinct (map member_id [alRay, beaRay])"
    unfolding alRay_def beaRay_def by code_simp
  have s1: "distinct (idsOf (spouseIds alRay))" unfolding alRay_def by code_simp
  have s2: "distinct (idsOf (spouseIds beaRay))" unfolding beaRay_def by code_simp
  from s1 s2 have s: "\<forall>m\<in>set [alRay, beaRay]. distinct (idsOf (spouseIds m))" by simp
  have lt: "''1'' < ''2''" by simp
  have lists: "member_id alRay = ''1''" "''2'' \<in> set (idsOf (spouseIds alRay))"
    by (simp_all add: alRay_def person_def idsOf_def)
  from spouse_edge_once [OF r d s, of "''1''" "''2''"] lt
  have "length (filter (joins ''1'' ''2'') (sEdges ?r)) =
        (if \<exists>m\<in>set [alRay, beaRay]. member_id m = ''1'' \<and> ''2'' \<in> set (idsOf (spouseIds m))
         then 1 else 0)"
    by blast
  also have "\<dots> = 1" using lists by simp
  finally show ?thesis using r d s1 s2 lt by blast
qed

subsection \<open>The worklist traversal\<close>

lemma update_fresh: "k \<notin> fst ` set al \<Longrightarrow> AList.update k v al = al @ [(k, v)]"
  by (induction al) auto

lemma bfsStep_shape:
  "bfsStep pE sE st = st \<or> (\<exists>rest. bfsStep pE sE st = st\<lparr>queue := rest\<rparr>)
   \<or> (\<exists>i g q'. i \<notin> set (seen st) \<and>
        bfsStep pE sE st = \<lparr>queue = q', seen = seen st @ [i], gen = mapSet (gen st) i g\<rparr>)"
proof (cases "queue st")
  case Nil
  then show ?thesis by (simp add: bfsStep_def)
next
  case (Cons x rest)
  obtain i g where x: "x = (i, g)" by (cases x)
  show ?thesis
  proof (cases "i \<in> set (seen st)")
    case True
    then have "bfsStep pE sE st = st\<lparr>queue := rest\<rparr>"
      by (simp add: bfsStep_def Cons x)
    then show ?thesis by blast
  next
    case False
    then have "bfsStep pE sE st =
        \<lparr>queue = rest @ expand pE sE (seen st @ [i]) i g, seen = seen st @ [i],
         gen = mapSet (gen st) i g\<rparr>"
      by (simp add: bfsStep_def Cons x)
    with False show ?thesis by blast
  qed
qed

lemma bfsInv_step: "bfsInv st \<Longrightarrow> bfsInv (bfsStep pE sE st)"
  using bfsStep_shape[of pE sE st]
  by (elim disjE exE conjE) (simp_all add: bfsInv_def mapSet_def dom_update)

lemma bfsStep_keeps:
  assumes "bfsInv st" "mapGet (gen st) i = Some g"
  shows "mapGet (gen (bfsStep pE sE st)) i = Some g"
proof -
  from assms(2) have i: "i \<in> fst ` set (gen st)"
    by (auto simp: mapGet_def dest: map_of_SomeD intro: rev_image_eqI)
  with assms(1) have "i \<in> set (seen st)" by (simp add: bfsInv_def)
  then show ?thesis
    using bfsStep_shape[of pE sE st] assms(2)
    by (elim disjE exE conjE) (auto simp: mapGet_def mapSet_def update_conv')
qed

lemma bfsInv_funpow: "bfsInv st \<Longrightarrow> bfsInv ((bfsStep pE sE ^^ n) st)"
  by (induction n) (auto intro: bfsInv_step)

lemma funpow_keeps:
  assumes "bfsInv st" "mapGet (gen ((bfsStep pE sE ^^ k) st)) i = Some g"
  shows "mapGet (gen ((bfsStep pE sE ^^ (k + d)) st)) i = Some g"
proof (induction d)
  case 0
  then show ?case using assms by simp
next
  case (Suc d)
  have "bfsInv ((bfsStep pE sE ^^ (k + d)) st)"
    using assms(1) by (rule bfsInv_funpow)
  from bfsStep_keeps[OF this Suc.IH] show ?case by simp
qed

lemma bfs_reaches_end:
  "\<exists>n. queue ((bfsStep pE sE ^^ n) st) = [] \<and> bfs pE sE st = (bfsStep pE sE ^^ n) st"
proof (induction pE sE st rule: bfs.induct)
  case (1 pE sE st)
  show ?case
  proof (cases "queue st = []")
    case True
    then have "queue ((bfsStep pE sE ^^ 0) st) = [] \<and> bfs pE sE st = (bfsStep pE sE ^^ 0) st"
      using bfs.simps [of pE sE st] by simp
    then show ?thesis by blast
  next
    case False
    from 1[OF False] obtain n where
      n: "queue ((bfsStep pE sE ^^ n) (bfsStep pE sE st)) = []"
         "bfs pE sE (bfsStep pE sE st) = (bfsStep pE sE ^^ n) (bfsStep pE sE st)"
      by blast
    have "bfs pE sE st = bfs pE sE (bfsStep pE sE st)"
      using False bfs.simps [of pE sE st] by simp
    with n have "queue ((bfsStep pE sE ^^ Suc n) st) = [] \<and>
                 bfs pE sE st = (bfsStep pE sE ^^ Suc n) st"
      by (simp add: funpow_swap1)
    then show ?thesis by blast
  qed
qed

lemma bfsStep_done: "queue st = [] \<Longrightarrow> bfsStep pE sE st = st"
  by (simp add: bfsStep_def)

lemma funpow_done: "queue st = [] \<Longrightarrow> (bfsStep pE sE ^^ n) st = st"
  by (induction n) (auto simp: bfsStep_done)

lemma funpow_final:
  assumes "bfsInv st" "mapGet (gen ((bfsStep pE sE ^^ k) st)) i = Some g"
  shows "mapGet (gen (bfs pE sE st)) i = Some g"
proof -
  obtain n where n: "queue ((bfsStep pE sE ^^ n) st) = []"
    "bfs pE sE st = (bfsStep pE sE ^^ n) st"
    using bfs_reaches_end by blast
  show ?thesis
  proof (cases "k \<le> n")
    case True
    then obtain d where "n = k + d" using le_Suc_ex by blast
    with funpow_keeps[OF assms, of d] n show ?thesis by simp
  next
    case False
    then obtain d where d: "k = d + n" using le_Suc_ex[of n k] by (auto simp: add.commute)
    have "(bfsStep pE sE ^^ k) st = (bfsStep pE sE ^^ d) ((bfsStep pE sE ^^ n) st)"
      by (simp add: d funpow_add)
    also have "\<dots> = (bfsStep pE sE ^^ n) st"
      using n(1) by (rule funpow_done)
    finally show ?thesis using assms(2) n(2) by simp
  qed
qed

text \<open>
  Claim C9. For every parent and spouse edge list (cyclic or not) and every initial
  queue, the loop reaches an empty queue after finitely many iterations, and \<open>bfs\<close>
  returns the state reached there; a generation that an identifier holds after some
  iteration is the one it holds after every later iteration and in the result (the
  first assignment is final); no identifier enters \<open>seen\<close> twice.
\<close>

theorem bfs_terminates_first_assignment_final:
  "(\<exists>n. queue ((bfsStep pE sE ^^ n) \<lparr>queue = q, seen = [], gen = []\<rparr>) = []
        \<and> bfs pE sE \<lparr>queue = q, seen = [], gen = []\<rparr>
            = (bfsStep pE sE ^^ n) \<lparr>queue = q, seen = [], gen = []\<rparr>)
   \<and> (\<forall>k i g. mapGet (gen ((bfsStep pE sE ^^ k) \<lparr>queue = q, seen = [], gen = []\<rparr>)) i = Some g
        \<longrightarrow> (\<forall>j\<ge>k. mapGet (gen ((bfsStep pE sE ^^ j) \<lparr>queue = q, seen = [], gen = []\<rparr>)) i = Some g)
            \<and> mapGet (gen (bfs pE sE \<lparr>queue = q, seen = [], gen = []\<rparr>)) i = Some g)
   \<and> (\<forall>k. distinct (seen ((bfsStep pE sE ^^ k) \<lparr>queue = q, seen = [], gen = []\<rparr>)))"
proof -
  let ?st = "\<lparr>queue = q, seen = [], gen = []\<rparr>"
  have inv: "bfsInv ?st" by (simp add: bfsInv_def)
  have a: "\<exists>n. queue ((bfsStep pE sE ^^ n) ?st) = [] \<and> bfs pE sE ?st = (bfsStep pE sE ^^ n) ?st"
    by (rule bfs_reaches_end)
  have b: "mapGet (gen ((bfsStep pE sE ^^ j) ?st)) i = Some g"
    if "mapGet (gen ((bfsStep pE sE ^^ k) ?st)) i = Some g" "k \<le> j" for k j i g
  proof -
    from that(2) obtain d where "j = k + d" using le_Suc_ex by blast
    with funpow_keeps[OF inv that(1), of d] show ?thesis by simp
  qed
  have c: "mapGet (gen (bfs pE sE ?st)) i = Some g"
    if "mapGet (gen ((bfsStep pE sE ^^ k) ?st)) i = Some g" for k i g
    using inv that by (rule funpow_final)
  have d: "distinct (seen ((bfsStep pE sE ^^ k) ?st))" for k
    using bfsInv_funpow[OF inv, where n = k and pE = pE and sE = sE]
    by (simp add: bfsInv_def)
  from b c have bc: "\<forall>k i g. mapGet (gen ((bfsStep pE sE ^^ k) ?st)) i = Some g
        \<longrightarrow> (\<forall>j\<ge>k. mapGet (gen ((bfsStep pE sE ^^ j) ?st)) i = Some g)
            \<and> mapGet (gen (bfs pE sE ?st)) i = Some g"
    by (intro allI impI conjI) 
  from d have "\<forall>k. distinct (seen ((bfsStep pE sE ^^ k) ?st))" ..
  with a bc show ?thesis by (intro conjI)
qed


theorem bfs_terminates_first_assignment_final_witness:
  "mapGet (gen ((bfsStep cycleEdges [] ^^ 1) \<lparr>queue = [(''a'', 0)], seen = [], gen = []\<rparr>)) ''a''
     = Some 0
   \<and> mapGet (gen (bfs cycleEdges [] \<lparr>queue = [(''a'', 0)], seen = [], gen = []\<rparr>)) ''a'' = Some 0
   \<and> gen (bfs cycleEdges [] \<lparr>queue = [(''a'', 0)], seen = [], gen = []\<rparr>)
       = [(''a'', 0), (''b'', - 1)]"
proof -
  let ?st = "\<lparr>queue = [(''a'', 0)], seen = [], gen = []\<rparr>"
  have "mapGet (gen (bfsStep cycleEdges [] ?st)) ''a'' = Some 0"
    unfolding cycleEdges_def by code_simp
  then have k: "mapGet (gen ((bfsStep cycleEdges [] ^^ 1) ?st)) ''a'' = Some 0"
    by simp
  from bfs_terminates_first_assignment_final [of cycleEdges "[]" "[(''a'', 0)]"]
  have "\<forall>k i g. mapGet (gen ((bfsStep cycleEdges [] ^^ k) ?st)) i = Some g
        \<longrightarrow> (\<forall>j\<ge>k. mapGet (gen ((bfsStep cycleEdges [] ^^ j) ?st)) i = Some g)
            \<and> mapGet (gen (bfs cycleEdges [] ?st)) i = Some g"
    by (elim conjE)
  with k have "mapGet (gen (bfs cycleEdges [] ?st)) ''a'' = Some 0"
    by (elim allE impE) (assumption, elim conjE)
  moreover have "gen (bfs cycleEdges [] ?st) = [(''a'', 0), (''b'', - 1)]"
    unfolding cycleEdges_def by code_simp
  ultimately show ?thesis using k by blast
qed

subsection \<open>Sorting returns a permutation\<close>

lemma insortBy_mset: "insortBy cmp x ys = Inr zs \<Longrightarrow> mset zs = add_mset x (mset ys)"
  by (induction ys arbitrary: zs) (auto split: sum.splits if_splits)

lemma sortBy_mset: "sortBy cmp xs = Inr ys \<Longrightarrow> mset ys = mset xs"
  by (induction xs arbitrary: ys) (auto split: sum.splits dest: insortBy_mset)

lemma insortBy_ok:
  "\<forall>y\<in>set ys. \<exists>v. cmp x y = Inr v \<Longrightarrow> \<exists>zs. insortBy cmp x ys = Inr zs"
  by (induction ys) (auto split: sum.splits)

lemma sortBy_ok:
  "\<forall>x\<in>set xs. \<forall>y\<in>set xs. \<exists>v. cmp x y = Inr v \<Longrightarrow> \<exists>ys. sortBy cmp xs = Inr ys"
proof (induction xs)
  case Nil
  then show ?case by simp
next
  case (Cons x xs)
  then obtain ys where ys: "sortBy cmp xs = Inr ys" by auto
  then have "set ys = set xs" by (metis sortBy_mset set_mset_mset)
  with Cons.prems have "\<exists>zs. insortBy cmp x ys = Inr zs"
    by (intro insortBy_ok) auto
  with ys show ?case by auto
qed

lemma pickOldest_ok:
  "members \<noteq> [] \<Longrightarrow> \<exists>m \<in> set members. pickOldest h members = Inr (member_id m)"
proof -
  assume ne: "members \<noteq> []"
  let ?cmp = "\<lambda>a b. Inr (numSub (yearOr9999 h (dateOfBirth a)) (yearOr9999 h (dateOfBirth b)))"
  obtain ys where ys: "sortBy ?cmp members = Inr ys"
    using sortBy_ok[of members ?cmp] by auto
  then have m: "mset ys = mset members" by (rule sortBy_mset)
  with ne obtain y ys' where c: "ys = y # ys'" by (cases ys) auto
  from m have "set ys = set members" by (metis set_mset_mset)
  with c have "y \<in> set members" by auto
  moreover have "pickOldest h members = Inr (member_id y)"
    by (simp add: pickOldest_def ys c)
  ultimately show ?thesis by blast
qed

subsection \<open>Maps, traversal and fill: the keys of the generation map\<close>

lemma mapSet_keys: "fst ` set (mapSet m k v) = insert k (fst ` set m)"
  by (simp add: mapSet_def dom_update)

lemma mapSet_distinct: "distinct (map fst m) \<Longrightarrow> distinct (map fst (mapSet m k v))"
  by (simp add: mapSet_def distinct_update)

lemma mapHas_iff: "mapHas m k \<longleftrightarrow> k \<in> fst ` set m"
  by (simp add: mapHas_def map_of_eq_None_iff)

lemma mapGet_None_iff: "mapGet m k = None \<longleftrightarrow> k \<notin> fst ` set m"
  by (simp add: mapGet_def map_of_eq_None_iff)

lemma foldl_mapSet_keys:
  "fst ` set (foldl (\<lambda>m (k, v). mapSet m k v) m0 kvs) = fst ` set m0 \<union> fst ` set kvs"
  by (induction kvs arbitrary: m0) (simp_all add: mapSet_keys case_prod_beta)

lemma byIdOf_keys: "fst ` set (byIdOf members) = member_id ` set members"
  by (simp add: byIdOf_def newMap_def foldl_mapSet_keys image_image)

lemma bfs_preserves:
  assumes "P st" and "\<And>s. P s \<Longrightarrow> P (bfsStep pE sE s)"
  shows "P (bfs pE sE st)"
proof -
  have "P ((bfsStep pE sE ^^ n) st)" for n
    by (induction n) (auto intro: assms)
  then show ?thesis using bfs_reaches_end [of pE sE st] by auto
qed

lemma expand_nodes: "fst ` set (expand pE sE sn i g) \<subseteq> nodes pE \<union> nodes sE"
  by (force simp: expand_def nodes_def split: if_splits)

lemma bfsStep_ids:
  assumes "fst ` set (gen st) \<union> fst ` set (queue st) \<union> nodes pE \<union> nodes sE \<subseteq> U"
  shows "fst ` set (gen (bfsStep pE sE st)) \<union> fst ` set (queue (bfsStep pE sE st))
         \<union> nodes pE \<union> nodes sE \<subseteq> U"
proof (cases "queue st")
  case Nil
  then show ?thesis using assms by (simp add: bfsStep_def)
next
  case (Cons x rest)
  obtain i g where x: "x = (i, g)" by (cases x)
  show ?thesis
  proof (cases "i \<in> set (seen st)")
    case True
    then have "bfsStep pE sE st = st\<lparr>queue := rest\<rparr>"
      by (simp add: bfsStep_def Cons x)
    then show ?thesis using assms Cons by auto
  next
    case False
    then have "bfsStep pE sE st =
        \<lparr>queue = rest @ expand pE sE (seen st @ [i]) i g, seen = seen st @ [i],
         gen = mapSet (gen st) i g\<rparr>"
      by (simp add: bfsStep_def Cons x)
    then show ?thesis
      using assms Cons x expand_nodes [of pE sE "seen st @ [i]" i g]
      by (auto simp: mapSet_keys)
  qed
qed

lemma bfs_keys:
  "fst ` set (gen (bfs pE sE st))
   \<subseteq> fst ` set (gen st) \<union> fst ` set (queue st) \<union> nodes pE \<union> nodes sE"
proof -
  let ?U = "fst ` set (gen st) \<union> fst ` set (queue st) \<union> nodes pE \<union> nodes sE"
  have "fst ` set (gen (bfs pE sE st)) \<union> fst ` set (queue (bfs pE sE st))
        \<union> nodes pE \<union> nodes sE \<subseteq> ?U"
    by (rule bfs_preserves [where P = "\<lambda>s. fst ` set (gen s) \<union> fst ` set (queue s)
        \<union> nodes pE \<union> nodes sE \<subseteq> ?U"]) (simp, rule bfsStep_ids)
  then show ?thesis by blast
qed

lemma bfsStep_distinct:
  "distinct (map fst (gen st)) \<Longrightarrow> distinct (map fst (gen (bfsStep pE sE st)))"
  using bfsStep_shape [of pE sE st]
  by (elim disjE exE conjE) (simp_all add: mapSet_distinct)

lemma bfs_distinct:
  "distinct (map fst (gen st)) \<Longrightarrow> distinct (map fst (gen (bfs pE sE st)))"
  by (rule bfs_preserves [where P = "\<lambda>s. distinct (map fst (gen s))"])
     (simp_all add: bfsStep_distinct)

lemma fillMember_keys:
  "fst ` set (fillMember h byId fb rootG gn m) = insert (member_id m) (fst ` set gn)"
  by (auto simp: fillMember_def Let_def mapHas_iff mapSet_keys split: option.splits)

lemma fillMember_distinct:
  "distinct (map fst gn) \<Longrightarrow> distinct (map fst (fillMember h byId fb rootG gn m))"
  by (auto simp: fillMember_def Let_def mapSet_distinct split: option.splits)

lemma fill_keys:
  "fst ` set (foldl (fillMember h byId fb rootG) gn members)
   = fst ` set gn \<union> member_id ` set members"
  by (induction members arbitrary: gn) (simp_all add: fillMember_keys)

lemma fill_distinct:
  "distinct (map fst gn) \<Longrightarrow> distinct (map fst (foldl (fillMember h byId fb rootG) gn members))"
  by (induction members arbitrary: gn) (simp_all add: fillMember_distinct)

lemma rootsOf_subset:
  "set (rootsOf members pE fb) \<subseteq> insert fb (member_id ` set members)"
  by (auto simp: rootsOf_def candidates_def)

lemma assignGenerations_distinct: "distinct (map fst (assignGenerations h members fb))"
  unfolding assignGenerations_def Let_def
  by (intro fill_distinct bfs_distinct) simp

lemma assignGenerations_keys:
  "member_id ` set members \<subseteq> fst ` set (assignGenerations h members fb)"
  "fst ` set (assignGenerations h members fb)
   \<subseteq> insert fb (member_id ` set members)
     \<union> nodes (explicitPEdges members) \<union> nodes (explicitSEdges members)"
proof -
  show "member_id ` set members \<subseteq> fst ` set (assignGenerations h members fb)"
    unfolding assignGenerations_def Let_def fill_keys by blast
  have "fst ` set (gen (bfs (explicitPEdges members) (explicitSEdges members)
          \<lparr>queue = map (\<lambda>i. (i, 0)) (rootsOf members (explicitPEdges members) fb),
           seen = [], gen = []\<rparr>))
        \<subseteq> set (rootsOf members (explicitPEdges members) fb)
          \<union> nodes (explicitPEdges members) \<union> nodes (explicitSEdges members)"
    using bfs_keys [of "explicitPEdges members" "explicitSEdges members"
        "\<lparr>queue = map (\<lambda>i. (i, 0)) (rootsOf members (explicitPEdges members) fb),
          seen = [], gen = []\<rparr>"]
    by (simp add: image_image)
  then show "fst ` set (assignGenerations h members fb)
   \<subseteq> insert fb (member_id ` set members)
     \<union> nodes (explicitPEdges members) \<union> nodes (explicitSEdges members)"
    unfolding assignGenerations_def Let_def fill_keys
    using rootsOf_subset [of members "explicitPEdges members" fb] by blast
qed

subsection \<open>Rows are a permutation of the generation map\<close>

lemma fold_min_le: "x \<in> set (v # vs) \<Longrightarrow> fold min vs v \<le> (x::int)"
  using Min_le [of "set (v # vs)" x] by (simp only: Min.set_eq_fold [symmetric] List.finite_set)

lemma fold_max_ge: "x \<in> set (v # vs) \<Longrightarrow> (x::int) \<le> fold max vs v"
  using Max_ge [of "set (v # vs)" x] by (simp only: Max.set_eq_fold [symmetric] List.finite_set)

lemma mset_concat_push:
  "k < length lv \<Longrightarrow> mset (concat (lv[k := lv ! k @ [i]])) = add_mset i (mset (concat lv))"
proof (induction lv arbitrary: k)
  case Nil
  then show ?case by simp
next
  case (Cons row lv)
  then show ?case by (cases k) auto
qed

lemma pushAll_ok:
  "\<forall>e\<in>set rest. 0 \<le> snd e - minG \<and> snd e - minG < int (length lv) \<Longrightarrow>
   \<exists>lv'. pushAll minG lv rest = Inr lv' \<and> length lv' = length lv
         \<and> mset (concat lv') = mset (concat lv) + mset (map fst rest)"
proof (induction rest arbitrary: lv)
  case Nil
  then show ?case by simp
next
  case (Cons e rest)
  obtain i g where e: "e = (i, g)" by (cases e)
  from Cons.prems e have k: "0 \<le> g - minG" "g - minG < int (length lv)" by auto
  let ?lv = "lv[nat (g - minG) := lv ! nat (g - minG) @ [i]]"
  have p: "pushAt lv (g - minG) i = Inr ?lv"
    using k by (simp add: pushAt_def)
  have len: "length ?lv = length lv" by simp
  from k have "nat (g - minG) < length lv" by linarith
  then have m: "mset (concat ?lv) = add_mset i (mset (concat lv))"
    by (rule mset_concat_push)
  from Cons.prems have "\<forall>e\<in>set rest. 0 \<le> snd e - minG \<and> snd e - minG < int (length ?lv)"
    by simp
  from Cons.IH [OF this] obtain lv' where
    "pushAll minG ?lv rest = Inr lv'" "length lv' = length ?lv"
    "mset (concat lv') = mset (concat ?lv) + mset (map fst rest)"
    by blast
  then show ?case
    by (simp add: e p m)
qed

lemma buildLevels_ok:
  "\<exists>lv. buildLevels gn = Inr lv \<and> mset (concat lv) = mset (map fst gn)"
proof (cases "map snd gn")
  case Nil
  then show ?thesis by (simp add: buildLevels_def)
next
  case (Cons v vs)
  let ?minG = "fold min vs v" and ?maxG = "fold max vs v"
  let ?lv0 = "replicate (nat (?maxG - ?minG + 1)) ([]::string list)"
  have b: "?minG \<le> snd e \<and> snd e \<le> ?maxG" if "e \<in> set gn" for e
  proof -
    from that have "snd e \<in> set (v # vs)"
      unfolding Cons [symmetric] by simp
    then show ?thesis using fold_min_le fold_max_ge by blast
  qed
  have "\<forall>e\<in>set gn. 0 \<le> snd e - ?minG \<and> snd e - ?minG < int (length ?lv0)"
  proof
    fix e assume "e \<in> set gn"
    from b [OF this] show "0 \<le> snd e - ?minG \<and> snd e - ?minG < int (length ?lv0)"
      by simp
  qed
  from pushAll_ok [OF this] obtain lv' where
    "pushAll ?minG ?lv0 gn = Inr lv'"
    "mset (concat lv') = mset (concat ?lv0) + mset (map fst gn)"
    by blast
  then show ?thesis
    by (simp add: buildLevels_def Cons)
qed

lemma pushAll_rows:
  "\<forall>e\<in>set rest. 0 \<le> snd e - minG \<and> snd e - minG < int (length lv) \<Longrightarrow>
   pushAll minG lv rest =
     Inr (map (\<lambda>k. lv ! k @ map fst (filter (\<lambda>x. snd x = minG + int k) rest)) [0..<length lv])"
proof (induction rest arbitrary: lv)
  case Nil
  then show ?case by (simp add: map_nth)
next
  case (Cons e rest)
  obtain i g where e: "e = (i, g)" by (cases e)
  from Cons.prems e have k: "0 \<le> g - minG" "g - minG < int (length lv)" by auto
  let ?j = "nat (g - minG)"
  let ?lv = "lv[?j := lv ! ?j @ [i]]"
  have p: "pushAt lv (g - minG) i = Inr ?lv"
    using k by (simp add: pushAt_def)
  from Cons.prems have "\<forall>e\<in>set rest. 0 \<le> snd e - minG \<and> snd e - minG < int (length ?lv)"
    by simp
  from Cons.IH [OF this] have
    ih: "pushAll minG ?lv rest =
         Inr (map (\<lambda>k. ?lv ! k @ map fst (filter (\<lambda>x. snd x = minG + int k) rest))
                [0..<length lv])"
    by simp
  have "?lv ! n @ map fst (filter (\<lambda>x. snd x = minG + int n) rest)
        = lv ! n @ map fst (filter (\<lambda>x. snd x = minG + int n) (e # rest))"
    if "n < length lv" for n
  proof (cases "n = ?j")
    case True
    with k have "g = minG + int n" by simp
    with True that show ?thesis by (simp add: e)
  next
    case False
    with k have "g \<noteq> minG + int n" by auto
    with False that show ?thesis by (simp add: e)
  qed
  then have "map (\<lambda>k. ?lv ! k @ map fst (filter (\<lambda>x. snd x = minG + int k) rest)) [0..<length lv]
      = map (\<lambda>k. lv ! k @ map fst (filter (\<lambda>x. snd x = minG + int k) (e # rest))) [0..<length lv]"
    by (intro map_cong) simp_all
  with ih p show ?case by (simp add: e)
qed

lemma buildLevels_rows:
  "buildLevels (e # gn) =
     Inr (map (\<lambda>k. map fst (filter (\<lambda>x. snd x = fold min (map snd gn) (snd e) + int k) (e # gn)))
            [0..<nat (fold max (map snd gn) (snd e) - fold min (map snd gn) (snd e) + 1)])"
proof -
  let ?minG = "fold min (map snd gn) (snd e)" and ?maxG = "fold max (map snd gn) (snd e)"
  let ?n = "nat (?maxG - ?minG + 1)"
  let ?lv0 = "replicate ?n ([]::string list)"
  have b: "?minG \<le> snd x \<and> snd x \<le> ?maxG" if "x \<in> set (e # gn)" for x
  proof -
    from that have "snd x \<in> set (snd e # map snd gn)" by auto
    then show ?thesis using fold_min_le fold_max_ge by blast
  qed
  have "\<forall>x\<in>set (e # gn). 0 \<le> snd x - ?minG \<and> snd x - ?minG < int (length ?lv0)"
  proof
    fix x assume "x \<in> set (e # gn)"
    from b [OF this] show "0 \<le> snd x - ?minG \<and> snd x - ?minG < int (length ?lv0)"
      by simp
  qed
  from pushAll_rows [OF this] have
    "pushAll ?minG ?lv0 (e # gn) =
       Inr (map (\<lambda>k. ?lv0 ! k @ map fst (filter (\<lambda>x. snd x = ?minG + int k) (e # gn)))
              [0..<?n])"
    by simp
  also have "map (\<lambda>k. ?lv0 ! k @ map fst (filter (\<lambda>x. snd x = ?minG + int k) (e # gn))) [0..<?n]
      = map (\<lambda>k. map fst (filter (\<lambda>x. snd x = ?minG + int k) (e # gn))) [0..<?n]"
    by (intro map_cong) simp_all
  finally show ?thesis
    by (simp add: buildLevels_def Let_def)
qed

lemma update_existing_mset:
  "map_of al k = Some v \<Longrightarrow>
   mset (concat (map snd (AList.update k (v @ [i]) al))) = add_mset i (mset (concat (map snd al)))"
  by (induction al) (auto split: if_splits)

lemma addToFamily_mset:
  "mset (concat (map snd (addToFamily fam t i))) = add_mset i (mset (concat (map snd fam)))"
proof (cases "mapGet fam t")
  case None
  then have "t \<notin> fst ` set fam" by (simp add: mapGet_None_iff)
  then have "mapSet fam t [i] = fam @ [(t, [i])]"
    unfolding mapSet_def by (rule update_fresh)
  then show ?thesis by (simp add: addToFamily_def None)
next
  case (Some ids)
  then show ?thesis
    by (simp add: addToFamily_def mapSet_def mapGet_def update_existing_mset)
qed

lemma families_mset:
  "mset (concat (map snd (foldl (\<lambda>fam i. addToFamily fam (f i) i) fam0 row)))
   = mset (concat (map snd fam0)) + mset row"
  by (induction row arbitrary: fam0) (simp_all add: addToFamily_mset)

lemma mapE_sort_mset:
  "mapE (\<lambda>(k, ids). case sortBy cmp ids of Inl e \<Rightarrow> Inl e | Inr ids' \<Rightarrow> Inr (k, ids')) fam = Inr bs
   \<Longrightarrow> mset (concat (map snd bs)) = mset (concat (map snd fam))"
proof (induction fam arbitrary: bs)
  case Nil
  then show ?case by simp
next
  case (Cons b fam)
  obtain k ids where b: "b = (k, ids)" by (cases b)
  from Cons.prems b obtain ids' bs' where
    s: "sortBy cmp ids = Inr ids'" and
    r: "mapE (\<lambda>(k, ids). case sortBy cmp ids of Inl e \<Rightarrow> Inl e | Inr ids' \<Rightarrow> Inr (k, ids')) fam
          = Inr bs'" and
    bs: "bs = (k, ids') # bs'"
    by (auto split: sum.splits)
  from s have "mset ids' = mset ids" by (rule sortBy_mset)
  with Cons.IH [OF r] show ?case by (simp add: bs b)
qed

lemma mapE_sort_ok:
  "\<forall>b\<in>set fam. \<forall>x\<in>set (snd b). \<forall>y\<in>set (snd b). \<exists>v. cmp x y = Inr v \<Longrightarrow>
   \<exists>bs. mapE (\<lambda>(k, ids). case sortBy cmp ids of Inl e \<Rightarrow> Inl e | Inr ids' \<Rightarrow> Inr (k, ids')) fam
          = Inr bs"
proof (induction fam)
  case Nil
  then show ?case by simp
next
  case (Cons b fam)
  obtain k ids where b: "b = (k, ids)" by (cases b)
  from Cons.prems b have "\<forall>x\<in>set ids. \<forall>y\<in>set ids. \<exists>v. cmp x y = Inr v" by simp
  then obtain ids' where "sortBy cmp ids = Inr ids'"
    using sortBy_ok by blast
  moreover from Cons obtain bs where
    "mapE (\<lambda>(k, ids). case sortBy cmp ids of Inl e \<Rightarrow> Inl e | Inr ids' \<Rightarrow> Inr (k, ids')) fam
       = Inr bs"
    by auto
  ultimately show ?case by (simp add: b)
qed

lemma concat_snd_perm:
  assumes "mset bs = mset cs"
  shows "mset (concat (map snd bs)) = mset (concat (map snd cs))"
proof -
  have "mset (concat (map snd xs)) = sum_mset (image_mset (\<lambda>b. mset (snd b)) (mset xs))"
    for xs :: "('a \<times> 'b list) list"
    by (induction xs) auto
  then show ?thesis using assms by simp
qed

lemma compareMembers_ok:
  "a \<in> fst ` set byId \<Longrightarrow> b \<in> fst ` set byId \<Longrightarrow> \<exists>v. compareMembers h byId a b = Inr v"
proof -
  assume "a \<in> fst ` set byId" "b \<in> fst ` set byId"
  then obtain A B where "mapGet byId a = Some A" "mapGet byId b = Some B"
    using mapGet_None_iff [of byId a] mapGet_None_iff [of byId b] by auto
  then show ?thesis by (simp add: compareMembers_def Let_def)
qed

lemma orderRow_mset:
  assumes "orderRow h byId pE row = Inr row'"
  shows "mset row' = mset row"
proof -
  let ?fam = "foldl (\<lambda>fam i. addToFamily fam (familyToken byId pE i) i) [] row"
  from assms obtain sb bs where
    sb: "mapE (\<lambda>(k, ids). case sortBy (compareMembers h byId) ids of
                 Inl e \<Rightarrow> Inl e | Inr ids' \<Rightarrow> Inr (k, ids')) ?fam = Inr sb" and
    bs: "sortBy (\<lambda>A B. Inr (Num (localeCompare h (fst A) (fst B)))) sb = Inr bs" and
    r: "row' = concat (map snd bs)"
    by (auto simp: orderRow_def Let_def split: sum.splits)
  from bs have "mset bs = mset sb" by (rule sortBy_mset)
  then have "mset (concat (map snd bs)) = mset (concat (map snd sb))"
    by (rule concat_snd_perm)
  also have "\<dots> = mset (concat (map snd ?fam))"
    using sb by (rule mapE_sort_mset)
  also have "\<dots> = mset row"
    using families_mset [of "familyToken byId pE" "[]" row] by simp
  finally show ?thesis by (simp add: r)
qed

lemma orderRow_ok:
  assumes "set row \<subseteq> fst ` set byId"
  shows "\<exists>row'. orderRow h byId pE row = Inr row'"
proof -
  define fam where "fam = foldl (\<lambda>fam i. addToFamily fam (familyToken byId pE i) i) [] row"
  have "mset (concat (map snd fam)) = mset row"
    unfolding fam_def using families_mset [of "familyToken byId pE" "[]" row] by simp
  then have "set (concat (map snd fam)) = set row"
    by (metis set_mset_mset)
  with assms have sub: "\<forall>b\<in>set fam. set (snd b) \<subseteq> fst ` set byId"
    by auto
  have "\<forall>b\<in>set fam. \<forall>x\<in>set (snd b). \<forall>y\<in>set (snd b).
      \<exists>v. compareMembers h byId x y = Inr v"
  proof (intro ballI)
    fix b x y assume "b \<in> set fam" "x \<in> set (snd b)" "y \<in> set (snd b)"
    with sub have "x \<in> fst ` set byId" "y \<in> fst ` set byId" by blast+
    then show "\<exists>v. compareMembers h byId x y = Inr v" by (rule compareMembers_ok)
  qed
  from mapE_sort_ok [OF this] obtain sb where
    sb: "mapE (\<lambda>(k, ids). case sortBy (compareMembers h byId) ids of
                 Inl e \<Rightarrow> Inl e | Inr ids' \<Rightarrow> Inr (k, ids')) fam = Inr sb"
    by blast
  obtain bs where bs: "sortBy (\<lambda>A B. Inr (Num (localeCompare h (fst A) (fst B)))) sb = Inr bs"
    using sortBy_ok [of sb "\<lambda>A B. Inr (Num (localeCompare h (fst A) (fst B)))"] by auto
  have "orderRow h byId pE row = Inr (concat (map snd bs))"
    unfolding orderRow_def Let_def fam_def [symmetric] by (simp add: sb bs)
  then show ?thesis ..
qed

lemma mapE_orderRow_mset:
  "mapE (orderRow h byId pE) lv = Inr lv' \<Longrightarrow> mset (concat lv') = mset (concat lv)"
proof (induction lv arbitrary: lv')
  case Nil
  then show ?case by simp
next
  case (Cons row lv)
  from Cons.prems obtain row' rest where
    a: "orderRow h byId pE row = Inr row'" and
    b: "mapE (orderRow h byId pE) lv = Inr rest" and
    c: "lv' = row' # rest"
    by (auto split: sum.splits)
  from a have "mset row' = mset row" by (rule orderRow_mset)
  with Cons.IH [OF b] show ?case by (simp add: c)
qed

lemma mapE_orderRow_ok:
  "set (concat lv) \<subseteq> fst ` set byId \<Longrightarrow> \<exists>lv'. mapE (orderRow h byId pE) lv = Inr lv'"
proof (induction lv)
  case Nil
  then show ?case by simp
next
  case (Cons row lv)
  then have "set row \<subseteq> fst ` set byId" by simp
  then obtain row' where "orderRow h byId pE row = Inr row'"
    using orderRow_ok by blast
  moreover from Cons obtain rest where "mapE (orderRow h byId pE) lv = Inr rest"
    by auto
  ultimately show ?case by simp
qed

subsection \<open>The rows of the layout\<close>

lemma layoutWithRoot_rows:
  assumes "layoutWithRoot h members fb = Inr r"
  shows "mset (concat (levels r)) = mset (map fst (assignGenerations h members fb))"
proof -
  obtain lv where lv: "buildLevels (assignGenerations h members fb) = Inr lv"
    and m: "mset (concat lv) = mset (map fst (assignGenerations h members fb))"
    using buildLevels_ok by blast
  from assms lv obtain lv' where
    o: "mapE (orderRow h (byIdOf members) (explicitPEdges members)) lv = Inr lv'"
    and r: "levels r = lv'"
    by (auto simp: layoutWithRoot_def split: sum.splits)
  from o have "mset (concat lv') = mset (concat lv)" by (rule mapE_orderRow_mset)
  with m r show ?thesis by simp
qed

lemma layoutWithRoot_ok:
  assumes "fst ` set (assignGenerations h members fb) \<subseteq> member_id ` set members"
  shows "\<exists>r. layoutWithRoot h members fb = Inr r"
proof -
  obtain lv where lv: "buildLevels (assignGenerations h members fb) = Inr lv"
    and m: "mset (concat lv) = mset (map fst (assignGenerations h members fb))"
    using buildLevels_ok by blast
  from m have "set (concat lv) = fst ` set (assignGenerations h members fb)"
    by (metis set_mset_mset set_map)
  with assms have "set (concat lv) \<subseteq> fst ` set (byIdOf members)"
    by (simp add: byIdOf_keys)
  then obtain lv' where
    "mapE (orderRow h (byIdOf members) (explicitPEdges members)) lv = Inr lv'"
    using mapE_orderRow_ok by blast
  then show ?thesis by (simp add: layoutWithRoot_def lv)
qed

lemma buildTreeLayout_rows:
  assumes "members \<noteq> []" "buildTreeLayout h members = Inr r"
  shows "distinct (concat (levels r))"
    and "member_id ` set members \<subseteq> set (concat (levels r))"
    and "set (concat (levels r)) \<subseteq> member_id ` set members
          \<union> nodes (explicitPEdges members) \<union> nodes (explicitSEdges members)"
proof -
  obtain m where m: "m \<in> set members" and p: "pickOldest h members = Inr (member_id m)"
    using pickOldest_ok [OF assms(1)] by blast
  let ?G = "assignGenerations h members (member_id m)"
  from assms p have "layoutWithRoot h members (member_id m) = Inr r"
    by (simp add: buildTreeLayout_def)
  then have e: "mset (concat (levels r)) = mset (map fst ?G)"
    by (rule layoutWithRoot_rows)
  have "distinct (map fst ?G)" by (rule assignGenerations_distinct)
  with e show "distinct (concat (levels r))"
    by (metis mset_eq_imp_distinct_iff)
  from e have s: "set (concat (levels r)) = fst ` set ?G"
    by (metis set_mset_mset set_map)
  show "member_id ` set members \<subseteq> set (concat (levels r))"
    unfolding s by (rule assignGenerations_keys)
  show "set (concat (levels r)) \<subseteq> member_id ` set members
          \<union> nodes (explicitPEdges members) \<union> nodes (explicitSEdges members)"
    unfolding s using assignGenerations_keys(2) [of h members "member_id m"] m by auto
qed

lemma buildTreeLayout_resolved:
  assumes "members \<noteq> []" "resolved members"
  shows "\<exists>r. buildTreeLayout h members = Inr r \<and> distinct (concat (levels r))
             \<and> set (concat (levels r)) = member_id ` set members"
proof -
  obtain m where m: "m \<in> set members" and p: "pickOldest h members = Inr (member_id m)"
    using pickOldest_ok [OF assms(1)] by blast
  have "fst ` set (assignGenerations h members (member_id m)) \<subseteq> member_id ` set members"
    using assignGenerations_keys(2) [of h members "member_id m"] m
      resolved_nodes [OF assms(2)] by auto
  then obtain r where "layoutWithRoot h members (member_id m) = Inr r"
    using layoutWithRoot_ok by blast
  with assms(1) p have r: "buildTreeLayout h members = Inr r"
    by (simp add: buildTreeLayout_def)
  from buildTreeLayout_rows [OF assms(1) r] resolved_nodes [OF assms(2)]
  have "distinct (concat (levels r))" "set (concat (levels r)) = member_id ` set members"
    by auto
  with r show ?thesis by blast
qed

text \<open>
  Where every reference resolves, the rows are what claim C1 asks for: for a non-empty
  collection with unique identifiers the engine returns and its rows hold exactly the
  member identifiers, each once. Whenever the engine returns, no identifier occurs twice
  in the rows and every member identifier occurs in them.
\<close>

lemma rows_partition_resolved:
  assumes "members \<noteq> []" and "distinct (map member_id members)"
  shows "(\<forall>r. buildTreeLayout h members = Inr r \<longrightarrow>
            distinct (concat (levels r))
            \<and> set (map member_id members) \<subseteq> set (concat (levels r))
            \<and> set (concat (levels r)) \<subseteq> set (map member_id members)
                \<union> nodes (explicitPEdges members) \<union> nodes (explicitSEdges members))
       \<and> (resolved members \<longrightarrow>
            (\<exists>r. buildTreeLayout h members = Inr r
                 \<and> mset (concat (levels r)) = mset (map member_id members)))"
proof (intro conjI allI impI)
  fix r assume r: "buildTreeLayout h members = Inr r"
  from buildTreeLayout_rows [OF assms(1) r]
  show "distinct (concat (levels r))"
    and "set (map member_id members) \<subseteq> set (concat (levels r))"
    and "set (concat (levels r)) \<subseteq> set (map member_id members)
          \<union> nodes (explicitPEdges members) \<union> nodes (explicitSEdges members)"
    by simp_all
next
  assume "resolved members"
  from buildTreeLayout_resolved [OF assms(1) this, of h] obtain r where
    r: "buildTreeLayout h members = Inr r" and d: "distinct (concat (levels r))"
    and s: "set (concat (levels r)) = set (map member_id members)"
    by auto
  from d assms(2) s have "mset (concat (levels r)) = mset (map member_id members)"
    by (metis set_eq_iff_mset_eq_distinct)
  with r show "\<exists>r. buildTreeLayout h members = Inr r
                 \<and> mset (concat (levels r)) = mset (map member_id members)"
    by blast
qed

text \<open>
  Claim C1. The rows are asked to partition the member identifiers of every non-empty
  collection with unique identifiers. The sort comparator of a row takes every
  identifier of the row for a member (\<^verbatim>\<open>byId.get(a)!\<close>), but the traversal has
  followed the parent edges to identifiers that are no members. The absent mother \<open>m\<close>
  of member 1 gets a row of her own; the absent father and mother of a single member
  share a bucket of their row, and sorting it reads the birth date of a member that
  does not exist: the engine throws and returns no rows at all.
\<close>

theorem dangling_reference_breaks_rows:
  "motherAbsent \<noteq> [] \<and> distinct (map member_id motherAbsent)
   \<and> ''m'' \<notin> set (map member_id motherAbsent)
   \<and> buildTreeLayout h motherAbsent =
       Inr \<lparr>levels = [[''2''], [''1''], [''m'']],
            pEdges = [(''m'', ''1''), (''1'', ''2'')], sEdges = []\<rparr>
   \<and> parentsAbsent \<noteq> [] \<and> distinct (map member_id parentsAbsent)
   \<and> buildTreeLayout h parentsAbsent = Inl TypeError"
  unfolding motherAbsent_def parentsAbsent_def by code_simp

lemma map_of_foldl_mapSet:
  "map_of (foldl (\<lambda>m (k, v). mapSet m k v) m0 kvs) = map_of (rev kvs @ m0)"
  by (induction kvs arbitrary: m0)
     (auto simp: mapSet_def update_conv' case_prod_beta fun_eq_iff map_add_def
           split: option.splits)

lemma map_of_keyed:
  "map_of (map (\<lambda>m. (f m, m)) xs) k =
     (case filter (\<lambda>x. f x = k) xs of [] \<Rightarrow> None | x # _ \<Rightarrow> Some x)"
  by (induction xs) auto

lemma byIdOf_last:
  assumes "m \<in> set members"
  shows "mapGet (byIdOf members) (member_id m)
         = Some (last (filter (\<lambda>x. member_id x = member_id m) members))"
proof -
  let ?P = "\<lambda>x. member_id x = member_id m"
  from assms have ne: "filter ?P members \<noteq> []"
    by (auto simp: filter_empty_conv)
  have "mapGet (byIdOf members) (member_id m)
        = map_of (map (\<lambda>m. (member_id m, m)) (rev members)) (member_id m)"
    by (simp add: mapGet_def byIdOf_def newMap_def map_of_foldl_mapSet rev_map)
  also have "\<dots> = (case rev (filter ?P members) of [] \<Rightarrow> None | x # _ \<Rightarrow> Some x)"
    by (simp add: map_of_keyed rev_filter)
  also have "\<dots> = Some (last (filter ?P members))"
    using ne by (cases "filter ?P members" rule: rev_cases) auto
  finally show ?thesis .
qed

text \<open>
  Claim C7, as stated: a collection with two members of the same identifier makes the
  engine fail with an error. It returns a layout.
\<close>

theorem duplicate_ids_not_rejected:
  "\<not> distinct (map member_id sameIdTwice)
   \<and> buildTreeLayout isoHost sameIdTwice =
       Inr \<lparr>levels = [[''1'']], pEdges = [], sEdges = []\<rparr>"
  unfolding sameIdTwice_def by code_simp

text \<open>
  Claim C7, amended. When two members of the collection have the same identifier (and
  every reference resolves), the engine raises no error: it returns a layout whose
  rows hold each identifier once, and its lookup table \<open>byId\<close> keeps, for every
  identifier, the last member that has it.
\<close>

theorem duplicate_ids_accepted:
  assumes "\<not> distinct (map member_id members)" and "resolved members"
  shows "(\<exists>r. buildTreeLayout h members = Inr r \<and> distinct (concat (levels r))
              \<and> set (concat (levels r)) = set (map member_id members))
       \<and> (\<forall>m\<in>set members.
            mapGet (byIdOf members) (member_id m)
            = Some (last (filter (\<lambda>x. member_id x = member_id m) members)))"
proof -
  from assms(1) have "members \<noteq> []" by auto
  from buildTreeLayout_resolved [OF this assms(2), of h] byIdOf_last
  show ?thesis by auto
qed

theorem duplicate_ids_accepted_witness:
  "\<not> distinct (map member_id sameIdTwice) \<and> resolved sameIdTwice
   \<and> (\<exists>r. buildTreeLayout isoHost sameIdTwice = Inr r \<and> distinct (concat (levels r))
          \<and> set (concat (levels r)) = set (map member_id sameIdTwice))
   \<and> mapGet (byIdOf sameIdTwice) ''1'' = Some (person ''1'' ''Al Roy'' ''Self'')"
proof -
  have d: "\<not> distinct (map member_id sameIdTwice)"
    unfolding sameIdTwice_def by code_simp
  have r: "resolved sameIdTwice"
    unfolding sameIdTwice_def by code_simp
  have g: "mapGet (byIdOf sameIdTwice) ''1'' = Some (person ''1'' ''Al Roy'' ''Self'')"
    unfolding sameIdTwice_def by code_simp
  from duplicate_ids_accepted [OF d r, of isoHost] d r g show ?thesis by blast
qed

subsection \<open>Collections without parent edges\<close>

lemma set_mapSet_subset: "set (mapSet m k v) \<subseteq> insert (k, v) (set m)"
  unfolding mapSet_def by (induction m) auto

lemma expand_no_parents: "snd ` set (expand [] sE sn i g) \<subseteq> {g}"
  by (auto simp: expand_def split: if_splits)

lemma bfsStep_allZero:
  assumes "allZero st"
  shows "allZero (bfsStep [] sE st)"
proof (cases "queue st")
  case Nil
  then show ?thesis using assms by (simp add: bfsStep_def)
next
  case (Cons x rest)
  obtain i g where x: "x = (i, g)" by (cases x)
  from assms Cons x have g: "g = 0" and rest: "snd ` set rest \<subseteq> {0}"
    and gn: "snd ` set (gen st) \<subseteq> {0}"
    by (auto simp: allZero_def)
  show ?thesis
  proof (cases "i \<in> set (seen st)")
    case True
    then have "bfsStep [] sE st = st\<lparr>queue := rest\<rparr>"
      by (simp add: bfsStep_def Cons x)
    then show ?thesis using rest gn by (simp add: allZero_def)
  next
    case False
    then have s: "bfsStep [] sE st =
        \<lparr>queue = rest @ expand [] sE (seen st @ [i]) i g, seen = seen st @ [i],
         gen = mapSet (gen st) i g\<rparr>"
      by (simp add: bfsStep_def Cons x)
    have "snd ` set (mapSet (gen st) i g) \<subseteq> {0}"
      using set_mapSet_subset [of "gen st" i g] gn g by fastforce
    moreover have "snd ` set (rest @ expand [] sE (seen st @ [i]) i g) \<subseteq> {0}"
      using rest expand_no_parents [of sE "seen st @ [i]" i g] g by auto
    ultimately show ?thesis by (simp add: allZero_def s)
  qed
qed

lemma bfsStep_covers:
  assumes "covers R st"
  shows "covers R (bfsStep pE sE st)"
proof (cases "queue st")
  case Nil
  then show ?thesis using assms by (simp add: bfsStep_def)
next
  case (Cons x rest)
  obtain i g where x: "x = (i, g)" by (cases x)
  from assms have inv: "bfsInv st" and R: "R \<subseteq> fst ` set (gen st) \<union> fst ` set (queue st)"
    by (simp_all add: covers_def)
  have inv': "bfsInv (bfsStep pE sE st)" using inv by (rule bfsInv_step)
  show ?thesis
  proof (cases "i \<in> set (seen st)")
    case True
    then have s: "bfsStep pE sE st = st\<lparr>queue := rest\<rparr>"
      by (simp add: bfsStep_def Cons x)
    from True inv have "i \<in> fst ` set (gen st)" by (simp add: bfsInv_def)
    with R Cons x have "R \<subseteq> fst ` set (gen st) \<union> fst ` set rest" by auto
    with inv' show ?thesis by (simp add: covers_def s)
  next
    case False
    then have s: "bfsStep pE sE st =
        \<lparr>queue = rest @ expand pE sE (seen st @ [i]) i g, seen = seen st @ [i],
         gen = mapSet (gen st) i g\<rparr>"
      by (simp add: bfsStep_def Cons x)
    from R Cons x have "R \<subseteq> insert i (fst ` set (gen st)) \<union> fst ` set rest" by auto
    then have "R \<subseteq> fst ` set (gen (bfsStep pE sE st)) \<union> fst ` set (queue (bfsStep pE sE st))"
      by (auto simp: s mapSet_keys)
    with inv' show ?thesis by (simp add: covers_def)
  qed
qed

lemma bfs_queue_empty: "queue (bfs pE sE st) = []"
  using bfs_reaches_end [of pE sE st] by auto

lemma bfs_visits_roots:
  "set roots \<subseteq> fst ` set (gen (bfs pE sE \<lparr>queue = map (\<lambda>i. (i, 0)) roots, seen = [], gen = []\<rparr>))"
proof -
  let ?st = "\<lparr>queue = map (\<lambda>i. (i, 0)) roots, seen = [], gen = []\<rparr>"
  have "covers (set roots) ?st"
    by (simp add: covers_def bfsInv_def image_image)
  then have "covers (set roots) (bfs pE sE ?st)"
    by (rule bfs_preserves [where P = "covers (set roots)"]) (rule bfsStep_covers)
  then show ?thesis
    by (simp add: covers_def bfs_queue_empty)
qed

lemma fill_nothing:
  "member_id ` set members \<subseteq> fst ` set gn \<Longrightarrow>
   foldl (fillMember h byId fb rootG) gn members = gn"
  by (induction members) (simp_all add: fillMember_def mapHas_iff)

lemma assignGenerations_no_parents:
  assumes "members \<noteq> []" "explicitPEdges members = []"
  shows "snd ` set (assignGenerations h members fb) \<subseteq> {0}"
proof -
  let ?sE = "explicitSEdges members"
  have roots: "rootsOf members [] fb = map member_id members"
    using assms(1) by (simp add: rootsOf_def candidates_def)
  let ?st = "\<lparr>queue = map (\<lambda>i. (i, 0)) (map member_id members), seen = [], gen = []\<rparr>"
  have "allZero ?st" by (auto simp: allZero_def)
  then have "allZero (bfs [] ?sE ?st)"
    by (rule bfs_preserves [where P = allZero]) (rule bfsStep_allZero)
  then have z: "snd ` set (gen (bfs [] ?sE ?st)) \<subseteq> {0}"
    by (simp add: allZero_def)
  have "set (map member_id members) \<subseteq> fst ` set (gen (bfs [] ?sE ?st))"
    by (rule bfs_visits_roots)
  then have "member_id ` set members \<subseteq> fst ` set (gen (bfs [] ?sE ?st))"
    by simp
  then have "assignGenerations h members fb = gen (bfs [] ?sE ?st)"
    by (simp add: assignGenerations_def Let_def assms(2) roots fill_nothing)
  with z show ?thesis by simp
qed

lemma pushAll_length: "pushAll minG lv rest = Inr lv' \<Longrightarrow> length lv' = length lv"
proof (induction rest arbitrary: lv)
  case Nil
  then show ?case by simp
next
  case (Cons e rest)
  obtain i g where e: "e = (i, g)" by (cases e)
  from Cons.prems e obtain lv1 where a: "pushAt lv (g - minG) i = Inr lv1"
    and b: "pushAll minG lv1 rest = Inr lv'"
    by (auto split: sum.splits)
  from a have "length lv1 = length lv"
    by (auto simp: pushAt_def split: if_splits)
  with Cons.IH [OF b] show ?case by simp
qed

lemma fold_min_const: "set vs \<subseteq> {v} \<Longrightarrow> fold min vs v = (v::int)"
  by (induction vs) auto

lemma fold_max_const: "set vs \<subseteq> {v} \<Longrightarrow> fold max vs v = (v::int)"
  by (induction vs) auto

lemma buildLevels_single:
  assumes "gn \<noteq> []" "snd ` set gn \<subseteq> {0}" "buildLevels gn = Inr lv"
  shows "length lv = 1"
proof -
  from assms(1) obtain v vs where c: "map snd gn = v # vs"
    by (cases gn) auto
  then have "set (v # vs) = snd ` set gn" by (metis set_map)
  with assms(2) have "set (v # vs) \<subseteq> {0}" by simp
  then have v: "v = 0" and vs: "set vs \<subseteq> {0}" by auto
  from assms(3) have "pushAll 0 (replicate 1 []) gn = Inr lv"
    by (simp add: buildLevels_def c v fold_min_const [OF vs] fold_max_const [OF vs])
  from pushAll_length [OF this] show ?thesis by simp
qed

lemma mapE_length: "mapE f xs = Inr ys \<Longrightarrow> length ys = length xs"
  by (induction xs arbitrary: ys) (auto split: sum.splits)

lemma assignGenerations_nonempty:
  "members \<noteq> [] \<Longrightarrow> assignGenerations h members fb \<noteq> []"
  using assignGenerations_keys(1) [of members h fb] by (cases members) auto

subsection \<open>Concrete layouts\<close>

text \<open>
  Claim C3. For three members with no links and no birth dates, labelled
  "Grandfather", "Father" and "Son", the output is asked to have three rows of one
  member and two inferred edges. In the code, a collection with no explicit parent edge
  has every member as a root of generation 0, no member is left to the label
  heuristic, and there is one row: the loop that infers edges between adjacent rows
  never finds two rows. For the three members the code returns one row of three and
  no edge.
\<close>

theorem no_parent_edge_single_row:
  assumes "members \<noteq> []" and "explicitPEdges members = []"
    and "buildTreeLayout h members = Inr r"
  shows "length (levels r) = 1 \<and> pEdges r = []"
proof -
  from assms(1,3) obtain fb where l: "layoutWithRoot h members fb = Inr r"
    by (auto simp: buildTreeLayout_def split: sum.splits)
  let ?G = "assignGenerations h members fb"
  from l obtain lv where lv: "buildLevels ?G = Inr lv"
    and o: "mapE (orderRow h (byIdOf members) (explicitPEdges members)) lv = Inr (levels r)"
    and p: "pEdges r = inferEdges (levels r)"
    by (auto simp: layoutWithRoot_def assms(2) split: sum.splits)
  have "length lv = 1"
    using assignGenerations_nonempty [OF assms(1)]
      assignGenerations_no_parents [OF assms(1,2)] lv
    by (rule buildLevels_single)
  with mapE_length [OF o] have one: "length (levels r) = 1" by simp
  then have "inferEdges (levels r) = []" by (simp add: inferEdges_def)
  with one p show ?thesis by simp
qed

theorem labelled_only_single_row:
  "labelledOnly \<noteq> [] \<and> explicitPEdges labelledOnly = []
   \<and> buildTreeLayout isoHost labelledOnly =
       Inr \<lparr>levels = [[''1'', ''2'', ''3'']], pEdges = [], sEdges = []\<rparr>
   \<and> length (levels \<lparr>levels = [[''1'', ''2'', ''3'']], pEdges = [], sEdges = []\<rparr>) = 1"
proof -
  have n: "labelledOnly \<noteq> []" unfolding labelledOnly_def by simp
  have e: "explicitPEdges labelledOnly = []" unfolding labelledOnly_def by code_simp
  have r: "buildTreeLayout isoHost labelledOnly =
       Inr \<lparr>levels = [[''1'', ''2'', ''3'']], pEdges = [], sEdges = []\<rparr>"
    unfolding labelledOnly_def by code_simp
  from no_parent_edge_single_row [OF n e r] n e r show ?thesis by blast
qed

text \<open>
  Claim C6, as stated: for the scenario of Ann, Bob and Cid Lee the rows are
  \<open>[[1], [2], [3]]\<close>. They are not.
\<close>

theorem scenario_rows_counterexample:
  "buildTreeLayout isoHost [annLee, bobLee, cidLee] \<noteq>
     Inr \<lparr>levels = [[''1''], [''2''], [''3'']],
          pEdges = [(''1'', ''2''), (''2'', ''3'')], sEdges = []\<rparr>"
  unfolding annLee_def bobLee_def cidLee_def by code_simp

text \<open>
  Claim C6, amended: for the scenario, on every host, the only root is 1, the rows are
  \<open>[[3], [2], [1]]\<close> (the youngest generation is row 0, the root is the last row), and
  the parent edges are exactly \<open>(1, 2)\<close> and \<open>(2, 3)\<close>, with no spouse edge.
\<close>

theorem scenario_layout:
  "rootsOf [annLee, bobLee, cidLee] (explicitPEdges [annLee, bobLee, cidLee]) f = [''1'']
   \<and> buildTreeLayout h [annLee, bobLee, cidLee] =
       Inr \<lparr>levels = [[''3''], [''2''], [''1'']],
            pEdges = [(''1'', ''2''), (''2'', ''3'')], sEdges = []\<rparr>"
proof -
  obtain fb where fb: "pickOldest h [annLee, bobLee, cidLee] = Inr fb"
    using pickOldest_ok [of "[annLee, bobLee, cidLee]" h] by auto
  have "layoutWithRoot h [annLee, bobLee, cidLee] fb =
          Inr \<lparr>levels = [[''3''], [''2''], [''1'']],
               pEdges = [(''1'', ''2''), (''2'', ''3'')], sEdges = []\<rparr>"
    unfolding annLee_def bobLee_def cidLee_def by code_simp
  then have "buildTreeLayout h [annLee, bobLee, cidLee] =
          Inr \<lparr>levels = [[''3''], [''2''], [''1'']],
               pEdges = [(''1'', ''2''), (''2'', ''3'')], sEdges = []\<rparr>"
    by (simp add: buildTreeLayout_def fb)
  moreover have
    "rootsOf [annLee, bobLee, cidLee] (explicitPEdges [annLee, bobLee, cidLee]) f = [''1'']"
    unfolding annLee_def bobLee_def cidLee_def by code_simp
  ultimately show ?thesis by simp
qed

text \<open>
  Claim C10. A row is allocated for every integer from the least to the greatest
  assigned generation, and row \<open>k\<close> holds the identifiers of generation \<open>least + k\<close>, in
  the order of assignment: a generation in between that nobody holds is an empty row.
  There is an input with such rows. Member 1 has no link and is traversed at
  generation 0; members 2 and 3, each recorded as the other's father, are not reached
  and are placed by their labels at \<open>+3\<close> and \<open>-1\<close>; the rows of generations 1 and 2 hold
  nobody.
\<close>

theorem empty_rows_between_generations:
  "buildLevels (e # gn) =
     Inr (map (\<lambda>k. map fst (filter (\<lambda>x. snd x = fold min (map snd gn) (snd e) + int k) (e # gn)))
            [0..<nat (fold max (map snd gn) (snd e) - fold min (map snd gn) (snd e) + 1)])
   \<and> withCycle \<noteq> [] \<and> distinct (map member_id withCycle) \<and> resolved withCycle
   \<and> pickOldest h withCycle = Inr ''1''
   \<and> assignGenerations h withCycle ''1'' = [(''1'', 0), (''2'', 3), (''3'', - 1)]
   \<and> buildLevels [(''1'', 0), (''2'', 3), (''3'', - 1)] = Inr [[''3''], [''1''], [], [], [''2'']]
   \<and> buildTreeLayout h withCycle =
       Inr \<lparr>levels = [[''3''], [''1''], [], [], [''2'']],
            pEdges = [(''3'', ''2''), (''2'', ''3'')], sEdges = []\<rparr>"
proof -
  have "withCycle \<noteq> []" "distinct (map member_id withCycle)" "resolved withCycle"
    unfolding withCycle_def by code_simp+
  moreover have "pickOldest h withCycle = Inr ''1''"
    unfolding withCycle_def by code_simp
  moreover have "assignGenerations h withCycle ''1'' = [(''1'', 0), (''2'', 3), (''3'', - 1)]"
    unfolding withCycle_def by code_simp
  moreover have
    "buildLevels [(''1'', 0), (''2'', 3), (''3'', - 1)] = Inr [[''3''], [''1''], [], [], [''2'']]"
    by code_simp
  moreover have "buildTreeLayout h withCycle =
          Inr \<lparr>levels = [[''3''], [''1''], [], [], [''2'']],
               pEdges = [(''3'', ''2''), (''2'', ''3'')], sEdges = []\<rparr>"
    unfolding withCycle_def by code_simp
  ultimately show ?thesis using buildLevels_rows [of e gn] by (intro conjI)
qed

end
